theory Spec2Isabelle
  imports Main "HOL-Library.Word" "HOL-Library.Multiset"
begin

unbundle bit_operations_syntax

section \<open>The ezcb callback dispatcher (src/ezcb.h)\<close>

text \<open>
  A shallow embedding of the single-header dispatcher. The build-time switches of the
  header are a record of parameters, the file-scope variables are a record of state that
  every operation takes and returns, each intrusive singly linked chain is the list of its
  nodes from the bucket head on, and the bucket array is the list of its chains.
  The mutex macros expand to nothing unless \<^verbatim>\<open>EZCB_THREAD_SAFE\<close> is set; the embedding is
  of the sequential program.
\<close>

subsection \<open>Configuration switches\<close>

record ezcb_config =
  EZCB_NO_MALLOC :: bool
  EZCB_ENABLE_ISR :: bool
  EZCB_MAX_BUCKETS :: nat
  EZCB_MAX_NODES :: nat
  EZCB_MAX_TRIGGER_LENGTH :: nat
  EZCB_EVENT_QUEUE_SIZE :: nat

subsection \<open>Data\<close>

text \<open>Pointers (callback, context and data pointers) are addresses; address 0 is NULL.\<close>

type_synonym ptr = nat

datatype ezcb_result_t = EZCB_CONTINUE | EZCB_STOP

text \<open>
  A node without its \<^verbatim>\<open>next\<close> link, which is the position in the chain's list. In both
  storage modes the node owns a copy of the trigger name.
\<close>

record ezcb_node_t =
  trigger :: string
  priority :: "8 word"
  once :: bool
  fn :: ptr
  ctx :: ptr

record ezcb_evt_t =
  evt_trigger :: string
  evt_data :: ptr

text \<open>
  The file-scope variables. \<open>ezcb_table = None\<close> is the NULL table pointer.
  The static node pool's free list is a stack of interchangeable slots that no operation
  inspects, so it is kept as the number of slots on it.
\<close>

record ezcb_state =
  ezcb_table :: "ezcb_node_t list list option"
  ezcb_buckets :: nat
  ezcb_count :: nat
  ezcb_free_list :: nat
  ezcb_evt_head :: "8 word"
  ezcb_evt_tail :: "8 word"
  ezcb_evt_queue :: "ezcb_evt_t list"

text \<open>The values of the variables at program start (static initialisers and zeroed storage).\<close>

definition ezcb_startup :: "ezcb_config \<Rightarrow> ezcb_state" where
  "ezcb_startup cfg =
     \<lparr>ezcb_table = None, ezcb_buckets = 0, ezcb_count = 0, ezcb_free_list = 0,
      ezcb_evt_head = 0, ezcb_evt_tail = 0,
      ezcb_evt_queue = replicate (EZCB_EVENT_QUEUE_SIZE cfg) \<lparr>evt_trigger = [], evt_data = 0\<rparr>\<rparr>"

text \<open>
  What the C standard leaves undefined and the code can run into: reading through the NULL
  table pointer, \<^verbatim>\<open>%\<close> by zero, and indexing an array past its end.
\<close>

datatype fault = NullTableDeref | ModuloByZero | OutOfBounds

text \<open>
  The outcome of the allocator during one call: whether \<^verbatim>\<open>calloc\<close> of a bucket array and
  \<^verbatim>\<open>malloc\<close> of a node succeed. The code does not test the result of \<^verbatim>\<open>strdup\<close>; the
  embedding covers the runs in which it succeeds.
\<close>

record heap =
  calloc_ok :: bool
  malloc_ok :: bool

text \<open>
  The behaviour of the registered callbacks: the callback at a function pointer, given the
  context and data pointers and the state of the rest of the program, returns its signal
  and the new state of the rest of the program. The code does not test a callback pointer
  before the call; a registration whose callback is NULL, and callbacks that re-enter the
  dispatcher, are outside the embedding.
\<close>

type_synonym 'u ezcb_callbacks = "ptr \<Rightarrow> ptr \<Rightarrow> ptr \<Rightarrow> 'u \<Rightarrow> ezcb_result_t \<times> 'u"

type_synonym invocation = "ezcb_node_t \<times> ezcb_result_t"

subsection \<open>Hash\<close>

definition ezcb_hash :: "string \<Rightarrow> 32 word" where
  "ezcb_hash s = fold (\<lambda>c h. (push_bit 5 h + h) XOR of_char c) s 5381"

subsection \<open>Allocation\<close>

text \<open>\<open>None\<close> is the NULL result; otherwise the state after the node was taken.\<close>

definition ezcb_node_alloc :: "ezcb_config \<Rightarrow> heap \<Rightarrow> ezcb_state \<Rightarrow> ezcb_state option" where
  "ezcb_node_alloc cfg h s =
     (if EZCB_NO_MALLOC cfg then
        (if ezcb_free_list s = 0 then None
         else Some (s\<lparr>ezcb_free_list := ezcb_free_list s - 1\<rparr>))
      else (if malloc_ok h then Some s else None))"

definition ezcb_node_free :: "ezcb_config \<Rightarrow> ezcb_state \<Rightarrow> ezcb_state" where
  "ezcb_node_free cfg s =
     (if EZCB_NO_MALLOC cfg then s\<lparr>ezcb_free_list := ezcb_free_list s + 1\<rparr> else s)"

subsection \<open>Resize\<close>

text \<open>One step of the inner loop: the node is pushed at the head of its new chain.\<close>

definition rehash_node :: "nat \<Rightarrow> ezcb_node_t \<Rightarrow> ezcb_node_t list list \<Rightarrow> ezcb_node_t list list" where
  "rehash_node new_size n new_table =
     (let idx = unat (ezcb_hash (trigger n)) mod new_size
      in new_table[idx := n # new_table ! idx])"

definition rehash_chain :: "nat \<Rightarrow> ezcb_node_t list \<Rightarrow> ezcb_node_t list list \<Rightarrow> ezcb_node_t list list" where
  "rehash_chain new_size chain new_table = fold (rehash_node new_size) chain new_table"

definition rehash_table :: "nat \<Rightarrow> ezcb_node_t list list \<Rightarrow> ezcb_node_t list list" where
  "rehash_table new_size tbl = fold (rehash_chain new_size) tbl (replicate new_size [])"

definition ezcb_resize :: "heap \<Rightarrow> nat \<Rightarrow> ezcb_state \<Rightarrow> fault + (int \<times> ezcb_state)" where
  "ezcb_resize h new_size s =
     (if \<not> calloc_ok h then Inr (- 1, s)
      else if ezcb_buckets s = 0 then
        Inr (0, s\<lparr>ezcb_table := Some (replicate new_size []), ezcb_buckets := new_size\<rparr>)
      else
        (case ezcb_table s of
           None \<Rightarrow> Inl NullTableDeref
         | Some tbl \<Rightarrow>
             if length tbl < ezcb_buckets s then Inl OutOfBounds
             else if new_size = 0 \<and> concat (take (ezcb_buckets s) tbl) \<noteq> [] then Inl ModuloByZero
             else Inr (0, s\<lparr>ezcb_table := Some (rehash_table new_size (take (ezcb_buckets s) tbl)),
                             ezcb_buckets := new_size\<rparr>)))"

subsection \<open>Initialize and deinitialize\<close>

definition ezcb_init :: "ezcb_config \<Rightarrow> heap \<Rightarrow> ezcb_state \<Rightarrow> ezcb_state" where
  "ezcb_init cfg h s =
     (if ezcb_table s \<noteq> None then s
      else if EZCB_NO_MALLOC cfg then
        s\<lparr>ezcb_buckets := EZCB_MAX_BUCKETS cfg,
          ezcb_table := Some (replicate (EZCB_MAX_BUCKETS cfg) []),
          ezcb_free_list := EZCB_MAX_NODES cfg,
          ezcb_count := 0\<rparr>
      else
        s\<lparr>ezcb_buckets := 16,
          ezcb_table := (if calloc_ok h then Some (replicate 16 []) else None),
          ezcb_count := 0\<rparr>)"

text \<open>The two loops release every node of every bucket; no callback runs.\<close>

definition ezcb_deinit :: "ezcb_config \<Rightarrow> ezcb_state \<Rightarrow> fault + ezcb_state" where
  "ezcb_deinit cfg s =
     (case ezcb_table s of
        None \<Rightarrow> Inr s
      | Some tbl \<Rightarrow>
          if length tbl < ezcb_buckets s then Inl OutOfBounds
          else Inr (s\<lparr>ezcb_table := None, ezcb_buckets := 0, ezcb_count := 0,
                       ezcb_free_list :=
                         (if EZCB_NO_MALLOC cfg
                          then ezcb_free_list s + length (concat (take (ezcb_buckets s) tbl))
                          else ezcb_free_list s),
                       ezcb_evt_head := (if EZCB_ENABLE_ISR cfg then 0 else ezcb_evt_head s),
                       ezcb_evt_tail := (if EZCB_ENABLE_ISR cfg then 0 else ezcb_evt_tail s)\<rparr>))"

subsection \<open>Register\<close>

text \<open>
  The insertion scan: stop in front of the first node of the same trigger with a lower
  priority, or at the end of the chain, and link the new node there.
\<close>

fun chain_insert :: "string \<Rightarrow> 8 word \<Rightarrow> ezcb_node_t \<Rightarrow> ezcb_node_t list \<Rightarrow> ezcb_node_t list" where
  "chain_insert t p node [] = [node]"
| "chain_insert t p node (cur # rest) =
     (if trigger cur = t \<and> priority cur < p then node # cur # rest
      else cur # chain_insert t p node rest)"

text \<open>
  The part of the function before the node is allocated: the length check of the static
  mode, the growth check of the malloc mode. The int is 0 when the function goes on.
\<close>

definition register_precheck :: "ezcb_config \<Rightarrow> heap \<Rightarrow> string \<Rightarrow> ezcb_state \<Rightarrow> fault + (int \<times> ezcb_state)" where
  "register_precheck cfg h t s =
     (if EZCB_NO_MALLOC cfg then
        (if EZCB_MAX_TRIGGER_LENGTH cfg \<le> length t then Inr (- 1, s) else Inr (0, s))
      else if ezcb_buckets s * 3 \<le> ezcb_count s * 4 then ezcb_resize h (ezcb_buckets s * 2) s
      else Inr (0, s))"

definition register_link :: "string \<Rightarrow> 8 word \<Rightarrow> ptr \<Rightarrow> ptr \<Rightarrow> bool \<Rightarrow> ezcb_state \<Rightarrow> fault + (int \<times> ezcb_state)" where
  "register_link t p f c oflag s =
     (if ezcb_buckets s = 0 then Inl ModuloByZero
      else
        (case ezcb_table s of
           None \<Rightarrow> Inl NullTableDeref
         | Some tbl \<Rightarrow>
             let idx = unat (ezcb_hash t) mod ezcb_buckets s;
                 node = \<lparr>trigger = t, priority = p, once = oflag, fn = f, ctx = c\<rparr>
             in if length tbl \<le> idx then Inl OutOfBounds
                else Inr (0, s\<lparr>ezcb_table := Some (tbl[idx := chain_insert t p node (tbl ! idx)]),
                                ezcb_count := ezcb_count s + 1\<rparr>)))"

definition ezcb_register_internal ::
  "ezcb_config \<Rightarrow> heap \<Rightarrow> string \<Rightarrow> 8 word \<Rightarrow> ptr \<Rightarrow> ptr \<Rightarrow> bool \<Rightarrow> ezcb_state \<Rightarrow> fault + (int \<times> ezcb_state)" where
  "ezcb_register_internal cfg h t p f c oflag s =
     (let s1 = (if ezcb_table s = None then ezcb_init cfg h s else s) in
      case register_precheck cfg h t s1 of
        Inl e \<Rightarrow> Inl e
      | Inr (rc, s2) \<Rightarrow>
          if rc \<noteq> 0 then Inr (- 1, s2)
          else
            (case ezcb_node_alloc cfg h s2 of
               None \<Rightarrow> Inr (- 1, s2)
             | Some s3 \<Rightarrow> register_link t p f c oflag s3))"

definition ezcb_register ::
  "ezcb_config \<Rightarrow> heap \<Rightarrow> string \<Rightarrow> 8 word \<Rightarrow> ptr \<Rightarrow> ptr \<Rightarrow> ezcb_state \<Rightarrow> fault + (int \<times> ezcb_state)" where
  "ezcb_register cfg h t p f c s = ezcb_register_internal cfg h t p f c False s"

definition ezcb_register_once ::
  "ezcb_config \<Rightarrow> heap \<Rightarrow> string \<Rightarrow> 8 word \<Rightarrow> ptr \<Rightarrow> ptr \<Rightarrow> ezcb_state \<Rightarrow> fault + (int \<times> ezcb_state)" where
  "ezcb_register_once cfg h t p f c s = ezcb_register_internal cfg h t p f c True s"

subsection \<open>Unregister\<close>

text \<open>The test both removal loops share: a NULL argument matches every node.\<close>

definition fn_ctx_match :: "ptr \<Rightarrow> ptr \<Rightarrow> ezcb_node_t \<Rightarrow> bool" where
  "fn_ctx_match f c n = ((f = 0 \<or> fn n = f) \<and> (c = 0 \<or> ctx n = c))"

text \<open>
  One removal loop over a chain, for the test \<open>hit\<close> of that loop: the chain that is left
  and the number of nodes spliced out.
\<close>

fun unregister_walk :: "(ezcb_node_t \<Rightarrow> bool) \<Rightarrow> ezcb_node_t list \<Rightarrow> ezcb_node_t list \<times> nat" where
  "unregister_walk hit [] = ([], 0)"
| "unregister_walk hit (n # rest) =
     (case unregister_walk hit rest of
        (rest', removed) \<Rightarrow> if hit n then (rest', Suc removed) else (n # rest', removed))"

text \<open>The outer loop of the wildcard path, over the buckets in index order.\<close>

fun unregister_buckets :: "(ezcb_node_t \<Rightarrow> bool) \<Rightarrow> ezcb_node_t list list \<Rightarrow> ezcb_node_t list list \<times> nat" where
  "unregister_buckets hit [] = ([], 0)"
| "unregister_buckets hit (chain # others) =
     (case unregister_walk hit chain of
        (chain', k) \<Rightarrow>
          (case unregister_buckets hit others of
             (others', k') \<Rightarrow> (chain' # others', k + k')))"

definition released :: "ezcb_config \<Rightarrow> nat \<Rightarrow> ezcb_state \<Rightarrow> ezcb_state" where
  "released cfg k s =
     s\<lparr>ezcb_count := ezcb_count s - k,
       ezcb_free_list := (if EZCB_NO_MALLOC cfg then ezcb_free_list s + k else ezcb_free_list s)\<rparr>"

definition ezcb_unregister ::
  "ezcb_config \<Rightarrow> string option \<Rightarrow> ptr \<Rightarrow> ptr \<Rightarrow> ezcb_state \<Rightarrow> fault + (int \<times> ezcb_state)" where
  "ezcb_unregister cfg t f c s =
     (case ezcb_table s of
        None \<Rightarrow> Inr (0, s)
      | Some tbl \<Rightarrow>
          (case t of
             Some name \<Rightarrow>
               if ezcb_buckets s = 0 then Inl ModuloByZero
               else
                 let idx = unat (ezcb_hash name) mod ezcb_buckets s
                 in if length tbl \<le> idx then Inl OutOfBounds
                    else
                      (case unregister_walk (\<lambda>n. trigger n = name \<and> fn_ctx_match f c n) (tbl ! idx) of
                         (chain', removed) \<Rightarrow>
                           Inr (int removed, released cfg removed (s\<lparr>ezcb_table := Some (tbl[idx := chain'])\<rparr>)))
           | None \<Rightarrow>
               if length tbl < ezcb_buckets s then Inl OutOfBounds
               else
                 (case unregister_buckets (fn_ctx_match f c) (take (ezcb_buckets s) tbl) of
                    (tbl', removed) \<Rightarrow>
                      Inr (int removed,
                           released cfg removed (s\<lparr>ezcb_table := Some (tbl' @ drop (ezcb_buckets s) tbl)\<rparr>)))))"

subsection \<open>Trigger\<close>

text \<open>
  The walk over one chain: the chain that is left, the number of once-nodes released, the
  callbacks invoked in order, each with the signal it returned, and the state of the rest
  of the program after them.
\<close>

fun trigger_walk ::
  "'u ezcb_callbacks \<Rightarrow> string \<Rightarrow> ptr \<Rightarrow> ezcb_node_t list \<Rightarrow> 'u \<Rightarrow> ezcb_node_t list \<times> nat \<times> invocation list \<times> 'u" where
  "trigger_walk cb t d [] u = ([], 0, [], u)"
| "trigger_walk cb t d (n # rest) u =
     (if trigger n = t then
        (case cb (fn n) (ctx n) d u of
           (r, u1) \<Rightarrow>
             if once n then
               (if r = EZCB_STOP then (rest, 1, [(n, r)], u1)
                else (case trigger_walk cb t d rest u1 of
                        (rest', k, log, u2) \<Rightarrow> (rest', Suc k, (n, r) # log, u2)))
             else
               (if r = EZCB_STOP then (n # rest, 0, [(n, r)], u1)
                else (case trigger_walk cb t d rest u1 of
                        (rest', k, log, u2) \<Rightarrow> (n # rest', k, (n, r) # log, u2))))
      else (case trigger_walk cb t d rest u of
              (rest', k, log, u2) \<Rightarrow> (n # rest', k, log, u2)))"

definition ezcb_trigger ::
  "ezcb_config \<Rightarrow> 'u ezcb_callbacks \<Rightarrow> string \<Rightarrow> ptr \<Rightarrow> ezcb_state \<Rightarrow> 'u \<Rightarrow> fault + (ezcb_state \<times> invocation list \<times> 'u)" where
  "ezcb_trigger cfg cb t d s u =
     (case ezcb_table s of
        None \<Rightarrow> Inr (s, [], u)
      | Some tbl \<Rightarrow>
          if ezcb_buckets s = 0 then Inl ModuloByZero
          else
            let idx = unat (ezcb_hash t) mod ezcb_buckets s
            in if length tbl \<le> idx then Inl OutOfBounds
               else
                 (case trigger_walk cb t d (tbl ! idx) u of
                    (chain', k, log, u') \<Rightarrow>
                      Inr (released cfg k (s\<lparr>ezcb_table := Some (tbl[idx := chain'])\<rparr>), log, u')))"

subsection \<open>ISR support\<close>

text \<open>
  The index after \<open>i\<close>: \<^verbatim>\<open>(i + 1) % EZCB_EVENT_QUEUE_SIZE\<close>, computed in \<^verbatim>\<open>int\<close> and stored
  into a \<^verbatim>\<open>uint8_t\<close>.
\<close>

definition evt_next :: "ezcb_config \<Rightarrow> 8 word \<Rightarrow> 8 word" where
  "evt_next cfg i = of_nat ((unat i + 1) mod EZCB_EVENT_QUEUE_SIZE cfg)"

definition ezcb_trigger_isr :: "ezcb_config \<Rightarrow> string \<Rightarrow> ptr \<Rightarrow> ezcb_state \<Rightarrow> fault + (int \<times> ezcb_state)" where
  "ezcb_trigger_isr cfg t d s =
     (if EZCB_EVENT_QUEUE_SIZE cfg = 0 then Inl ModuloByZero
      else
        let next = evt_next cfg (ezcb_evt_head s)
        in if next = ezcb_evt_tail s then Inr (- 1, s)
           else if length (ezcb_evt_queue s) \<le> unat (ezcb_evt_head s) then Inl OutOfBounds
           else Inr (0, s\<lparr>ezcb_evt_queue :=
                             (ezcb_evt_queue s)[unat (ezcb_evt_head s) := \<lparr>evt_trigger = t, evt_data = d\<rparr>],
                           ezcb_evt_head := next\<rparr>))"

text \<open>
  The drain loop. It need not end from every state (a producer index outside the ring is
  never met by the consumer index), so not returning is the value \<open>None\<close>. The calls of
  \<open>ezcb_trigger\<close> made so far are passed along, each with the event it was made for.
\<close>

partial_function (option) ezcb_dispatch ::
  "ezcb_config \<Rightarrow> 'u ezcb_callbacks \<Rightarrow> ezcb_state \<Rightarrow> (ezcb_evt_t \<times> invocation list) list \<Rightarrow> 'u
     \<Rightarrow> (fault + (ezcb_state \<times> (ezcb_evt_t \<times> invocation list) list \<times> 'u)) option" where
  "ezcb_dispatch cfg cb s calls u =
     (if ezcb_evt_tail s = ezcb_evt_head s then Some (Inr (s, calls, u))
      else if length (ezcb_evt_queue s) \<le> unat (ezcb_evt_tail s) then Some (Inl OutOfBounds)
      else if EZCB_EVENT_QUEUE_SIZE cfg = 0 then Some (Inl ModuloByZero)
      else
        (case ezcb_trigger cfg cb
                (evt_trigger (ezcb_evt_queue s ! unat (ezcb_evt_tail s)))
                (evt_data (ezcb_evt_queue s ! unat (ezcb_evt_tail s)))
                (s\<lparr>ezcb_evt_tail := evt_next cfg (ezcb_evt_tail s)\<rparr>) u of
           Inl e \<Rightarrow> Some (Inl e)
         | Inr (s', log, u') \<Rightarrow>
             ezcb_dispatch cfg cb s' (calls @ [(ezcb_evt_queue s ! unat (ezcb_evt_tail s), log)]) u'))"

section \<open>Invariants and reference notions\<close>

subsection \<open>The registry\<close>

text \<open>The bucket a node belongs to in a table of \<open>m\<close> buckets.\<close>

definition bucket_of :: "nat \<Rightarrow> ezcb_node_t \<Rightarrow> nat" where
  "bucket_of m n = unat (ezcb_hash (trigger n)) mod m"

text \<open>Every node of the chains \<open>i, i + 1, \<dots>\<close> sits in the bucket its trigger hashes to.\<close>

fun placed_from :: "nat \<Rightarrow> nat \<Rightarrow> ezcb_node_t list list \<Rightarrow> bool" where
  "placed_from m i [] = True"
| "placed_from m i (chain # others) =
     (list_all (\<lambda>n. bucket_of m n = i) chain \<and> placed_from m (Suc i) others)"

text \<open>
  The invariant of the file-scope variables: when there is a table, \<open>ezcb_buckets\<close> is its
  length and is not zero, every node is in its bucket, and \<open>ezcb_count\<close> is the number of
  nodes. The start-up state has it and every operation keeps it, see
  \<open>operations_keep_invariant\<close> below.
\<close>

definition registry_ok :: "ezcb_state \<Rightarrow> bool" where
  "registry_ok s =
     (case ezcb_table s of
        None \<Rightarrow> True
      | Some tbl \<Rightarrow>
          0 < ezcb_buckets s \<and> length tbl = ezcb_buckets s
          \<and> placed_from (ezcb_buckets s) 0 tbl \<and> ezcb_count s = length (concat tbl))"

text \<open>
  The order the specification asks of a chain: of two nodes with the same trigger, the
  earlier one has the priority that is not lower. With \<open>chain_insert\<close> putting a new node
  behind the nodes of equal priority, this is priority order with FIFO ties.
\<close>

definition same_trigger_sorted :: "ezcb_node_t list \<Rightarrow> bool" where
  "same_trigger_sorted chain =
     sorted_wrt (\<lambda>a b. trigger a = trigger b \<longrightarrow> priority b \<le> priority a) chain"

definition table_sorted :: "ezcb_state \<Rightarrow> bool" where
  "table_sorted s =
     (case ezcb_table s of None \<Rightarrow> True | Some tbl \<Rightarrow> list_all same_trigger_sorted tbl)"

text \<open>The live registrations, bucket by bucket.\<close>

definition all_nodes :: "ezcb_state \<Rightarrow> ezcb_node_t list" where
  "all_nodes s = (case ezcb_table s of None \<Rightarrow> [] | Some tbl \<Rightarrow> concat tbl)"

text \<open>
  The specification's matching rule for unregister, written from its words: a registration
  is hit when every argument that is not a wildcard (NULL) equals the registration's field.
\<close>

definition unregister_hit :: "string option \<Rightarrow> ptr \<Rightarrow> ptr \<Rightarrow> ezcb_node_t \<Rightarrow> bool" where
  "unregister_hit t f c n =
     ((t = None \<or> t = Some (trigger n)) \<and> (f = 0 \<or> f = fn n) \<and> (c = 0 \<or> c = ctx n))"

subsection \<open>The deferred queue\<close>

text \<open>
  The number of values the two 8-bit indices run through: the configured size, but never
  more than 256.
\<close>

definition ring_size :: "ezcb_config \<Rightarrow> nat" where
  "ring_size cfg = min (EZCB_EVENT_QUEUE_SIZE cfg) 256"

text \<open>The invariant of the queue variables: the array has its declared size and both
  indices are inside the ring.\<close>

definition queue_ok :: "ezcb_config \<Rightarrow> ezcb_state \<Rightarrow> bool" where
  "queue_ok cfg s =
     (0 < EZCB_EVENT_QUEUE_SIZE cfg \<and> length (ezcb_evt_queue s) = EZCB_EVENT_QUEUE_SIZE cfg
      \<and> unat (ezcb_evt_head s) < ring_size cfg \<and> unat (ezcb_evt_tail s) < ring_size cfg)"

text \<open>The events enqueued and not yet drained, oldest first: the slots from the consumer
  index up to the producer index.\<close>

definition evt_pending_count :: "ezcb_config \<Rightarrow> ezcb_state \<Rightarrow> nat" where
  "evt_pending_count cfg s =
     (unat (ezcb_evt_head s) + ring_size cfg - unat (ezcb_evt_tail s)) mod ring_size cfg"

definition evt_pending :: "ezcb_config \<Rightarrow> ezcb_state \<Rightarrow> ezcb_evt_t list" where
  "evt_pending cfg s =
     map (\<lambda>i. ezcb_evt_queue s ! ((unat (ezcb_evt_tail s) + i) mod ring_size cfg))
       [0..<evt_pending_count cfg s]"

text \<open>
  The specification's drain, written from its words: one call of Trigger per event, in the
  order of the list, each call recorded with its event.
\<close>

fun trigger_each ::
  "ezcb_config \<Rightarrow> 'u ezcb_callbacks \<Rightarrow> ezcb_evt_t list \<Rightarrow> ezcb_state \<Rightarrow> 'u
     \<Rightarrow> fault + (ezcb_state \<times> (ezcb_evt_t \<times> invocation list) list \<times> 'u)" where
  "trigger_each cfg cb [] s u = Inr (s, [], u)"
| "trigger_each cfg cb (e # es) s u =
     (case ezcb_trigger cfg cb (evt_trigger e) (evt_data e) s u of
        Inl x \<Rightarrow> Inl x
      | Inr (s', log, u') \<Rightarrow>
          (case trigger_each cfg cb es s' u' of
             Inl x \<Rightarrow> Inl x
           | Inr (s'', calls, u'') \<Rightarrow> Inr (s'', (e, log) # calls, u'')))"

subsection \<open>Callers\<close>

text \<open>A caller that makes the given register calls one after the other and collects the
  return values; it stops at undefined behaviour.\<close>

fun register_calls ::
  "ezcb_config \<Rightarrow> heap \<Rightarrow> (string \<times> 8 word \<times> ptr \<times> ptr \<times> bool) list \<Rightarrow> ezcb_state \<Rightarrow> fault + (int list \<times> ezcb_state)" where
  "register_calls cfg h [] s = Inr ([], s)"
| "register_calls cfg h ((t, p, f, c, oflag) # calls) s =
     (case ezcb_register_internal cfg h t p f c oflag s of
        Inl e \<Rightarrow> Inl e
      | Inr (rc, s') \<Rightarrow>
          (case register_calls cfg h calls s' of
             Inl e \<Rightarrow> Inl e
           | Inr (rcs, s'') \<Rightarrow> Inr (rc # rcs, s'')))"

text \<open>An interrupt handler that enqueues the given events one after the other.\<close>

fun isr_calls :: "ezcb_config \<Rightarrow> (string \<times> ptr) list \<Rightarrow> ezcb_state \<Rightarrow> fault + (int list \<times> ezcb_state)" where
  "isr_calls cfg [] s = Inr ([], s)"
| "isr_calls cfg ((t, d) # evs) s =
     (case ezcb_trigger_isr cfg t d s of
        Inl x \<Rightarrow> Inl x
      | Inr (rc, s') \<Rightarrow>
          (case isr_calls cfg evs s' of
             Inl x \<Rightarrow> Inl x
           | Inr (rcs, s'') \<Rightarrow> Inr (rc # rcs, s'')))"

section \<open>Example configurations and states\<close>

text \<open>An allocator that never fails.\<close>

definition heap_ok :: heap where
  "heap_ok = \<lparr>calloc_ok = True, malloc_ok = True\<rparr>"

text \<open>The header's defaults, with the malloc mode and the ISR queue.\<close>

definition header_defaults :: ezcb_config where
  "header_defaults = \<lparr>EZCB_NO_MALLOC = False, EZCB_ENABLE_ISR = True, EZCB_MAX_BUCKETS = 32,
     EZCB_MAX_NODES = 64, EZCB_MAX_TRIGGER_LENGTH = 32, EZCB_EVENT_QUEUE_SIZE = 16\<rparr>"

text \<open>A static build with a single bucket, so that all trigger names collide.\<close>

definition one_bucket :: ezcb_config where
  "one_bucket = \<lparr>EZCB_NO_MALLOC = True, EZCB_ENABLE_ISR = True, EZCB_MAX_BUCKETS = 1,
     EZCB_MAX_NODES = 4, EZCB_MAX_TRIGGER_LENGTH = 8, EZCB_EVENT_QUEUE_SIZE = 4\<rparr>"

text \<open>A malloc build whose queue is larger than an 8-bit index can address.\<close>

definition wide_queue :: ezcb_config where
  "wide_queue = \<lparr>EZCB_NO_MALLOC = False, EZCB_ENABLE_ISR = True, EZCB_MAX_BUCKETS = 32,
     EZCB_MAX_NODES = 64, EZCB_MAX_TRIGGER_LENGTH = 32, EZCB_EVENT_QUEUE_SIZE = 300\<rparr>"

text \<open>The callback at address 1 stops, every other one continues; each counts itself in
  the state of the rest of the program.\<close>

definition stop_at_1 :: "nat ezcb_callbacks" where
  "stop_at_1 f c d u = (if f = 1 then (EZCB_STOP, Suc u) else (EZCB_CONTINUE, Suc u))"

definition always_continue :: "unit ezcb_callbacks" where
  "always_continue f c d u = (EZCB_CONTINUE, u)"

definition node_a :: ezcb_node_t where
  "node_a = \<lparr>trigger = ''a'', priority = 5, once = False, fn = 1, ctx = 0\<rparr>"

definition node_b :: ezcb_node_t where
  "node_b = \<lparr>trigger = ''b'', priority = 5, once = False, fn = 2, ctx = 0\<rparr>"

definition node_c :: ezcb_node_t where
  "node_c = \<lparr>trigger = ''c'', priority = 1, once = True, fn = 3, ctx = 0\<rparr>"

definition node_a1 :: ezcb_node_t where
  "node_a1 = \<lparr>trigger = ''a'', priority = 3, once = True, fn = 1, ctx = 7\<rparr>"

definition node_a2 :: ezcb_node_t where
  "node_a2 = \<lparr>trigger = ''a'', priority = 2, once = True, fn = 3, ctx = 0\<rparr>"

text \<open>The one-bucket registry holding the given chain.\<close>

definition collide :: "ezcb_node_t list \<Rightarrow> ezcb_state" where
  "collide chain = (ezcb_startup one_bucket)\<lparr>ezcb_table := Some [chain], ezcb_buckets := 1,
     ezcb_count := length chain, ezcb_free_list := 4 - length chain\<rparr>"

definition evt_a :: ezcb_evt_t where
  "evt_a = \<lparr>evt_trigger = ''a'', evt_data = 10\<rparr>"

definition evt_b :: ezcb_evt_t where
  "evt_b = \<lparr>evt_trigger = ''b'', evt_data = 20\<rparr>"

definition evt_c :: ezcb_evt_t where
  "evt_c = \<lparr>evt_trigger = ''c'', evt_data = 30\<rparr>"

definition evt_blank :: ezcb_evt_t where
  "evt_blank = \<lparr>evt_trigger = [], evt_data = 0\<rparr>"

text \<open>The one-bucket registry with the given chain, queue slots and indices.\<close>

definition queued :: "ezcb_node_t list \<Rightarrow> ezcb_evt_t list \<Rightarrow> nat \<Rightarrow> nat \<Rightarrow> ezcb_state" where
  "queued chain slots hd_i tl_i =
     (collide chain)\<lparr>ezcb_evt_queue := slots, ezcb_evt_head := of_nat hd_i, ezcb_evt_tail := of_nat tl_i\<rparr>"

text \<open>The wide queue after \<open>k\<close> events were enqueued and none drained.\<close>

definition wide_filled :: "nat \<Rightarrow> ezcb_state" where
  "wide_filled k = (ezcb_startup wide_queue)
     \<lparr>ezcb_evt_queue := replicate k \<lparr>evt_trigger = ''e'', evt_data = 7\<rparr>
                          @ replicate (300 - k) \<lparr>evt_trigger = [], evt_data = 0\<rparr>,
      ezcb_evt_head := of_nat k\<rparr>"

text \<open>Twelve registrations of one trigger with falling priorities, callbacks 1 to 12.\<close>

definition grow_calls :: "(string \<times> 8 word \<times> ptr \<times> ptr \<times> bool) list" where
  "grow_calls =
     [(''a'', 12, 1, 0, False), (''a'', 11, 2, 0, False), (''a'', 10, 3, 0, False),
      (''a'', 9, 4, 0, False), (''a'', 8, 5, 0, False), (''a'', 7, 6, 0, False),
      (''a'', 6, 7, 0, False), (''a'', 5, 8, 0, False), (''a'', 4, 9, 0, False),
      (''a'', 3, 10, 0, False), (''a'', 2, 11, 0, False), (''a'', 1, 12, 0, False)]"

text \<open>A malloc-mode registry of 16 buckets whose bucket 4 (where \<open>''a''\<close> hashes to) holds
  the given chain.\<close>

definition sixteen :: "ezcb_node_t list \<Rightarrow> ezcb_state" where
  "sixteen chain = (ezcb_startup header_defaults)
     \<lparr>ezcb_table := Some ((replicate 16 [])[4 := chain]),
      ezcb_buckets := 16, ezcb_count := length chain\<rparr>"

section \<open>Properties\<close>

lemmas demo_defs = collide_def ezcb_startup_def one_bucket_def stop_at_1_def node_a_def node_b_def
        node_a1_def node_a2_def released_def

subsection \<open>Trigger\<close>

lemma trigger_walk_append:
  "trigger_walk cb t d (xs @ ys) u =
     (case trigger_walk cb t d xs u of
        (xs', k, log, u1) \<Rightarrow>
          if EZCB_STOP \<in> snd ` set log then (xs' @ ys, k, log, u1)
          else (case trigger_walk cb t d ys u1 of
                  (ys', k2, log2, u2) \<Rightarrow> (xs' @ ys', k + k2, log @ log2, u2)))"
proof (induction xs arbitrary: u)
  case Nil
  show ?case by (simp split: prod.splits)
next
  case (Cons n xs)
  show ?case
  proof (cases "trigger n = t")
    case False
    obtain xs2 k2 log2 u2 where w: "trigger_walk cb t d xs u = (xs2, k2, log2, u2)"
      by (cases "trigger_walk cb t d xs u")
    show ?thesis
    proof (cases "EZCB_STOP \<in> snd ` set log2")
      case True
      with False w Cons.IH [of u] show ?thesis by simp
    next
      case nostop: False
      obtain ys3 k3 log3 u3 where w3: "trigger_walk cb t d ys u2 = (ys3, k3, log3, u3)"
        by (cases "trigger_walk cb t d ys u2")
      from False w w3 nostop Cons.IH [of u] show ?thesis by simp
    qed
  next
    case True
    obtain r u1 where cb: "cb (fn n) (ctx n) d u = (r, u1)" by (cases "cb (fn n) (ctx n) d u")
    show ?thesis
    proof (cases "r = EZCB_STOP")
      case True
      with \<open>trigger n = t\<close> cb show ?thesis by simp
    next
      case False
      then have rc: "r = EZCB_CONTINUE" by (cases r) simp_all
      obtain xs2 k2 log2 u2 where w: "trigger_walk cb t d xs u1 = (xs2, k2, log2, u2)"
        by (cases "trigger_walk cb t d xs u1")
      show ?thesis
      proof (cases "EZCB_STOP \<in> snd ` set log2")
        case True
        with rc \<open>trigger n = t\<close> cb w Cons.IH [of u1] show ?thesis by simp
      next
        case nostop: False
        obtain ys3 k3 log3 u3 where w3: "trigger_walk cb t d ys u2 = (ys3, k3, log3, u3)"
          by (cases "trigger_walk cb t d ys u2")
        from rc \<open>trigger n = t\<close> cb w w3 nostop Cons.IH [of u1] show ?thesis by simp
      qed
    qed
  qed
qed

lemma trigger_walk_log_trigger:
  "trigger_walk cb t d xs u = (xs', k, log, u') \<Longrightarrow> (n, r) \<in> set log \<Longrightarrow> trigger n = t"
proof (induction xs arbitrary: u xs' k log u')
  case Nil
  then show ?case by simp
next
  case (Cons a xs)
  then show ?case
    by (auto split: if_splits prod.splits)
qed

lemma trigger_walk_stop_last:
  "trigger_walk cb t d xs u = (xs', k, log, u') \<Longrightarrow> i < length log \<Longrightarrow> snd (log ! i) = EZCB_STOP \<Longrightarrow> Suc i = length log"
proof (induction xs arbitrary: u xs' k log u' i)
  case Nil
  then show ?case by simp
next
  case (Cons a xs)
  show ?case
  proof (cases "trigger a = t")
    case False
    with Cons.prems Cons.IH show ?thesis by (auto split: prod.splits)
  next
    case True
    obtain r u1 where cb: "cb (fn a) (ctx a) d u = (r, u1)" by (cases "cb (fn a) (ctx a) d u")
    show ?thesis
    proof (cases "r = EZCB_STOP")
      case True
      with \<open>trigger a = t\<close> cb Cons.prems show ?thesis by (auto split: if_splits)
    next
      case False
      obtain xs2 k2 log2 u2 where w: "trigger_walk cb t d xs u1 = (xs2, k2, log2, u2)"
        by (cases "trigger_walk cb t d xs u1")
      from False \<open>trigger a = t\<close> cb w Cons.prems(1) have log: "log = (a, r) # log2"
        by (auto split: if_splits)
      show ?thesis
      proof (cases i)
        case 0
        with log Cons.prems(3) False show ?thesis by simp
      next
        case (Suc j)
        with log Cons.prems have "j < length log2" "snd (log2 ! j) = EZCB_STOP" by simp_all
        from Cons.IH [OF w this] Suc log show ?thesis by simp
      qed
    qed
  qed
qed

lemma trigger_walk_filter:
  "trigger_walk cb t d xs u = (xs', k, log, u') \<Longrightarrow>
     (\<exists>ys k2. trigger_walk cb t d (filter (\<lambda>n. trigger n = t) xs) u = (ys, k2, log, u'))
     \<and> filter (\<lambda>n. trigger n \<noteq> t) xs' = filter (\<lambda>n. trigger n \<noteq> t) xs"
proof (induction xs arbitrary: u xs' k log u')
  case Nil
  then show ?case by simp
next
  case (Cons a xs)
  show ?case
  proof (cases "trigger a = t")
    case False
    with Cons.prems Cons.IH show ?thesis by (auto split: prod.splits)
  next
    case True
    obtain r u1 where cb: "cb (fn a) (ctx a) d u = (r, u1)" by (cases "cb (fn a) (ctx a) d u")
    show ?thesis
    proof (cases "r = EZCB_STOP")
      case True
      with \<open>trigger a = t\<close> cb Cons.prems show ?thesis by (auto split: if_splits)
    next
      case False
      obtain xs2 k2 log2 u2 where w: "trigger_walk cb t d xs u1 = (xs2, k2, log2, u2)"
        by (cases "trigger_walk cb t d xs u1")
      from Cons.IH [OF w] False \<open>trigger a = t\<close> cb w Cons.prems(1) show ?thesis
        by (auto split: if_splits)
    qed
  qed
qed

lemma ezcb_trigger_active:
  assumes "ezcb_table s = Some tbl" and "0 < ezcb_buckets s"
    and "idx = unat (ezcb_hash t) mod ezcb_buckets s" and "idx < length tbl"
  shows "ezcb_trigger cfg cb t d s u =
           (case trigger_walk cb t d (tbl ! idx) u of
              (chain', k, log, u') \<Rightarrow>
                Inr (released cfg k (s\<lparr>ezcb_table := Some (tbl[idx := chain'])\<rparr>), log, u'))"
  using assms by (simp add: ezcb_trigger_def Let_def split: prod.splits)

lemma trigger_walk_log_continue:
  assumes "trigger_walk cb t d xs u = (xs', k, log, u')" and "EZCB_STOP \<notin> snd ` set log"
  shows "\<forall>(m, r) \<in> set log. trigger m = t \<and> r = EZCB_CONTINUE"
proof -
  { fix m r assume mr: "(m, r) \<in> set log"
    have "trigger m = t" using trigger_walk_log_trigger [OF assms(1) mr] .
    moreover have "r \<noteq> EZCB_STOP" using mr assms(2) by force
    then have "r = EZCB_CONTINUE" by (cases r) simp_all
    ultimately have "trigger m = t \<and> r = EZCB_CONTINUE" by simp }
  then show ?thesis by auto
qed

text \<open>
  Claim C2 (stop propagation). Let the bucket chain of the triggered name be
  \<open>pre @ n # post\<close>, let the walk reach \<open>n\<close> (no callback of \<open>pre\<close> returned stop), let
  \<open>n\<close> carry the triggered name and let its callback return stop. Then the call invokes
  the callbacks of \<open>pre\<close> and then \<open>n\<close>, and nothing else: \<open>post\<close> is left in place, whatever
  triggers its nodes carry (only \<open>n\<close> itself is unlinked, when it is a once-node). The nodes
  of \<open>pre\<close> with another trigger name are passed over: they stay in the chain, none is
  invoked, and the invocations are those of the walk over the matching nodes alone.
\<close>

theorem trigger_stop_halts_chain:
  assumes "ezcb_table s = Some tbl" and "0 < ezcb_buckets s"
    and "idx = unat (ezcb_hash t) mod ezcb_buckets s" and "idx < length tbl"
    and "tbl ! idx = pre @ n # post"
    and "trigger n = t"
    and "trigger_walk cb t d pre u = (pre', k, log1, u1)"
    and "EZCB_STOP \<notin> snd ` set log1"
    and "cb (fn n) (ctx n) d u1 = (EZCB_STOP, u2)"
  shows "ezcb_trigger cfg cb t d s u =
           Inr (released cfg (k + (if once n then 1 else 0))
                  (s\<lparr>ezcb_table := Some (tbl[idx := pre' @ (if once n then [] else [n]) @ post])\<rparr>),
                log1 @ [(n, EZCB_STOP)], u2)
         \<and> filter (\<lambda>m. trigger m \<noteq> t) pre' = filter (\<lambda>m. trigger m \<noteq> t) pre
         \<and> (\<exists>ys k2. trigger_walk cb t d (filter (\<lambda>m. trigger m = t) pre) u = (ys, k2, log1, u1))
         \<and> (\<forall>(m, r) \<in> set log1. trigger m = t \<and> r = EZCB_CONTINUE)"
proof -
  have "trigger_walk cb t d (n # post) u1 =
          ((if once n then [] else [n]) @ post, (if once n then 1 else 0), [(n, EZCB_STOP)], u2)"
    using assms(6,9) by simp
  then have "trigger_walk cb t d (pre @ n # post) u =
          (pre' @ (if once n then [] else [n]) @ post, k + (if once n then 1 else 0),
           log1 @ [(n, EZCB_STOP)], u2)"
    using assms(7,8) by (simp add: trigger_walk_append)
  then have "ezcb_trigger cfg cb t d s u =
           Inr (released cfg (k + (if once n then 1 else 0))
                  (s\<lparr>ezcb_table := Some (tbl[idx := pre' @ (if once n then [] else [n]) @ post])\<rparr>),
                log1 @ [(n, EZCB_STOP)], u2)"
    using ezcb_trigger_active [OF assms(1-4), of cfg cb d u] assms(5) by simp
  moreover note trigger_walk_filter [OF assms(7)] trigger_walk_log_continue [OF assms(7,8)]
  ultimately show ?thesis by blast
qed

text \<open>
  In the one-bucket registry: a stop of \<open>node_a\<close> leaves the later nodes of both triggers
  alone, and a trigger of \<open>''b''\<close> passes over \<open>node_a\<close> and invokes \<open>node_b\<close>.
\<close>

theorem trigger_stop_halts_chain_witness:
  "ezcb_trigger one_bucket stop_at_1 ''a'' 9 (collide [node_b, node_a, node_a2, node_b]) 0 =
     Inr (collide [node_b, node_a, node_a2, node_b], [(node_a, EZCB_STOP)], 1)
   \<and> ezcb_trigger one_bucket stop_at_1 ''b'' 9 (collide [node_a, node_b]) 0 =
     Inr (collide [node_a, node_b], [(node_b, EZCB_CONTINUE)], 1)"
proof -
  have "ezcb_trigger one_bucket stop_at_1 ''a'' 9 (collide [node_b, node_a, node_a2, node_b]) 0 =
     Inr (collide [node_b, node_a, node_a2, node_b], [(node_a, EZCB_STOP)], 1)"
    using trigger_stop_halts_chain [of "collide [node_b, node_a, node_a2, node_b]"
      "[[node_b, node_a, node_a2, node_b]]" 0 "''a''" "[node_b]" node_a "[node_a2, node_b]"
      stop_at_1 9 0 "[node_b]" 0 "[]" 0 1 one_bucket]
    by (simp add: collide_def ezcb_startup_def one_bucket_def stop_at_1_def node_a_def node_b_def
        node_a2_def released_def)
  moreover have "ezcb_trigger one_bucket stop_at_1 ''b'' 9 (collide [node_a, node_b]) 0 =
     Inr (collide [node_a, node_b], [(node_b, EZCB_CONTINUE)], 1)"
    by (simp add: ezcb_trigger_def collide_def ezcb_startup_def one_bucket_def stop_at_1_def
        node_a_def node_b_def released_def)
  ultimately show ?thesis by simp
qed

text \<open>
  Claim C3 (once semantics). Let the bucket chain of the triggered name be
  \<open>pre @ n # post\<close> with \<open>n\<close> a once-node of that name that the walk reaches. Then \<open>n\<close> is
  invoked exactly there, and it is gone from the chain after the call whether it returned
  stop (the walk ends, \<open>post\<close> untouched) or continue (the walk goes on over \<open>post\<close>); the
  live count drops by one for it. A later trigger call walks a chain that no longer holds it.
\<close>

theorem once_node_released_after_call:
  assumes "ezcb_table s = Some tbl" and "0 < ezcb_buckets s"
    and "idx = unat (ezcb_hash t) mod ezcb_buckets s" and "idx < length tbl"
    and "tbl ! idx = pre @ n # post"
    and "trigger n = t" and "once n"
    and "trigger_walk cb t d pre u = (pre', k, log1, u1)"
    and "EZCB_STOP \<notin> snd ` set log1"
    and "cb (fn n) (ctx n) d u1 = (r, u2)"
    and "trigger_walk cb t d post u2 = (post', k2, log2, u3)"
  shows "ezcb_trigger cfg cb t d s u =
           (if r = EZCB_STOP then
              Inr (released cfg (Suc k) (s\<lparr>ezcb_table := Some (tbl[idx := pre' @ post])\<rparr>),
                   log1 @ [(n, r)], u2)
            else
              Inr (released cfg (Suc (k + k2)) (s\<lparr>ezcb_table := Some (tbl[idx := pre' @ post'])\<rparr>),
                   log1 @ (n, r) # log2, u3))"
proof -
  have "trigger_walk cb t d (n # post) u1 =
          (if r = EZCB_STOP then (post, 1, [(n, r)], u2) else (post', Suc k2, (n, r) # log2, u3))"
    using assms(6,7,10,11) by simp
  then have "trigger_walk cb t d (pre @ n # post) u =
          (if r = EZCB_STOP then (pre' @ post, Suc k, log1 @ [(n, r)], u2)
           else (pre' @ post', Suc (k + k2), log1 @ (n, r) # log2, u3))"
    using assms(8,9) by (simp add: trigger_walk_append)
  then show ?thesis
    using ezcb_trigger_active [OF assms(1-4), of cfg cb d u] assms(5) by simp
qed

theorem once_node_released_after_call_witness:
  "once node_a1 \<and> once node_a2
   \<and> ezcb_trigger one_bucket stop_at_1 ''a'' 9 (collide [node_b, node_a1, node_a2]) 0 =
       Inr (collide [node_b, node_a2], [(node_a1, EZCB_STOP)], 1)
   \<and> ezcb_trigger one_bucket stop_at_1 ''a'' 9 (collide [node_a2, node_a1]) 0 =
       Inr (collide [], [(node_a2, EZCB_CONTINUE), (node_a1, EZCB_STOP)], 2)"
proof -
  have "ezcb_trigger one_bucket stop_at_1 ''a'' 9 (collide [node_b, node_a1, node_a2]) 0 =
       Inr (collide [node_b, node_a2], [(node_a1, EZCB_STOP)], 1)"
    using once_node_released_after_call [of "collide [node_b, node_a1, node_a2]"
      "[[node_b, node_a1, node_a2]]" 0 "''a''" "[node_b]" node_a1 "[node_a2]"
      stop_at_1 9 0 "[node_b]" 0 "[]" 0 EZCB_STOP 1 "[]" 1 "[(node_a2, EZCB_CONTINUE)]" 2 one_bucket]
    by (simp add: demo_defs)
  moreover have "ezcb_trigger one_bucket stop_at_1 ''a'' 9 (collide [node_a2, node_a1]) 0 =
       Inr (collide [], [(node_a2, EZCB_CONTINUE), (node_a1, EZCB_STOP)], 2)"
    using once_node_released_after_call [of "collide [node_a2, node_a1]"
      "[[node_a2, node_a1]]" 0 "''a''" "[]" node_a2 "[node_a1]"
      stop_at_1 9 0 "[]" 0 "[]" 0 EZCB_CONTINUE 1 "[]" 1 "[(node_a1, EZCB_STOP)]" 2 one_bucket]
    by (simp add: demo_defs)
  moreover have "once node_a1 \<and> once node_a2" by (simp add: demo_defs)
  ultimately show ?thesis by simp
qed

subsection \<open>Unregister\<close>

lemma placed_from_iff:
  "placed_from m i tbl \<longleftrightarrow> (\<forall>j<length tbl. \<forall>n\<in>set (tbl ! j). bucket_of m n = i + j)"
proof (induction tbl arbitrary: i)
  case Nil
  show ?case by simp
next
  case (Cons chain others)
  show ?case
  proof
    assume a: "placed_from m i (chain # others)"
    show "\<forall>j<length (chain # others). \<forall>n\<in>set ((chain # others) ! j). bucket_of m n = i + j"
    proof (intro allI impI ballI)
      fix j n assume j: "j < length (chain # others)" and n: "n \<in> set ((chain # others) ! j)"
      show "bucket_of m n = i + j"
      proof (cases j)
        case 0
        with a n show ?thesis by (simp add: list_all_iff)
      next
        case (Suc j')
        with a j n Cons.IH [of "Suc i"] show ?thesis by simp
      qed
    qed
  next
    assume a: "\<forall>j<length (chain # others). \<forall>n\<in>set ((chain # others) ! j). bucket_of m n = i + j"
    have "list_all (\<lambda>n. bucket_of m n = i) chain"
      using a [rule_format, of 0] by (simp add: list_all_iff)
    moreover have "\<forall>j<length others. \<forall>n\<in>set (others ! j). bucket_of m n = Suc i + j"
      using a [rule_format, of "Suc j" for j] by simp
    ultimately show "placed_from m i (chain # others)"
      using Cons.IH [of "Suc i"] by simp
  qed
qed

lemma unregister_walk_filter:
  "unregister_walk hit chain = (filter (\<lambda>n. \<not> hit n) chain, length (filter hit chain))"
  by (induction chain) simp_all

lemma unregister_buckets_filter:
  "unregister_buckets hit tbl =
     (map (filter (\<lambda>n. \<not> hit n)) tbl, length (filter hit (concat tbl)))"
  by (induction tbl) (simp_all add: unregister_walk_filter)

lemma filter_concat_one_bucket:
  assumes "idx < length tbl" and "\<forall>j<length tbl. j \<noteq> idx \<longrightarrow> (\<forall>n\<in>set (tbl ! j). \<not> P n)"
  shows "map (filter (\<lambda>n. \<not> P n)) tbl = tbl[idx := filter (\<lambda>n. \<not> P n) (tbl ! idx)]"
    and "length (filter P (concat tbl)) = length (filter P (tbl ! idx))"
proof -
  show "map (filter (\<lambda>n. \<not> P n)) tbl = tbl[idx := filter (\<lambda>n. \<not> P n) (tbl ! idx)]"
  proof (rule nth_equalityI)
    show "length (map (filter (\<lambda>n. \<not> P n)) tbl) = length (tbl[idx := filter (\<lambda>n. \<not> P n) (tbl ! idx)])"
      by simp
  next
    fix j assume "j < length (map (filter (\<lambda>n. \<not> P n)) tbl)"
    then have j: "j < length tbl" by simp
    show "map (filter (\<lambda>n. \<not> P n)) tbl ! j = tbl[idx := filter (\<lambda>n. \<not> P n) (tbl ! idx)] ! j"
    proof (cases "j = idx")
      case True
      with j show ?thesis by simp
    next
      case False
      with assms(2) j have "\<forall>n\<in>set (tbl ! j). \<not> P n" by simp
      then have "filter (\<lambda>n. \<not> P n) (tbl ! j) = tbl ! j" by (simp add: filter_id_conv)
      with False j show ?thesis by simp
    qed
  qed
  have "length (filter P (concat tbl)) = sum_list (map (\<lambda>ch. length (filter P ch)) tbl)"
    by (induction tbl) simp_all
  also have "map (\<lambda>ch. length (filter P ch)) tbl = (replicate (length tbl) 0)[idx := length (filter P (tbl ! idx))]"
  proof (rule nth_equalityI)
    show "length (map (\<lambda>ch. length (filter P ch)) tbl) = length ((replicate (length tbl) 0)[idx := length (filter P (tbl ! idx))])"
      by simp
  next
    fix j assume "j < length (map (\<lambda>ch. length (filter P ch)) tbl)"
    then have j: "j < length tbl" by simp
    show "map (\<lambda>ch. length (filter P ch)) tbl ! j = (replicate (length tbl) 0)[idx := length (filter P (tbl ! idx))] ! j"
    proof (cases "j = idx")
      case True
      with j show ?thesis by simp
    next
      case False
      with assms(2) j have "\<forall>n\<in>set (tbl ! j). \<not> P n" by simp
      then have "filter P (tbl ! j) = []" by (simp add: filter_empty_conv)
      with False j show ?thesis by simp
    qed
  qed
  also have "sum_list ((replicate (length tbl) 0)[idx := length (filter P (tbl ! idx))]) = length (filter P (tbl ! idx))"
    using assms(1) by (simp add: sum_list_update)
  finally show "length (filter P (concat tbl)) = length (filter P (tbl ! idx))" .
qed

lemma unregister_result:
  assumes "ezcb_table s = Some tbl" and "registry_ok s"
  shows "ezcb_unregister cfg t f c s =
           Inr (int (length (filter (unregister_hit t f c) (concat tbl))),
                released cfg (length (filter (unregister_hit t f c) (concat tbl)))
                  (s\<lparr>ezcb_table := Some (map (filter (\<lambda>n. \<not> unregister_hit t f c n)) tbl)\<rparr>))
         \<and> (\<forall>name. t = Some name \<longrightarrow>
               map (filter (\<lambda>n. \<not> unregister_hit t f c n)) tbl =
               tbl[unat (ezcb_hash name) mod ezcb_buckets s :=
                     filter (\<lambda>n. \<not> unregister_hit t f c n) (tbl ! (unat (ezcb_hash name) mod ezcb_buckets s))])
         \<and> (t = None \<and> f = 0 \<and> c = 0 \<longrightarrow>
               map (filter (\<lambda>n. \<not> unregister_hit t f c n)) tbl = replicate (ezcb_buckets s) []
               \<and> length (filter (unregister_hit t f c) (concat tbl)) = ezcb_count s)"
proof -
  from assms have len: "length tbl = ezcb_buckets s" and pos: "0 < ezcb_buckets s"
    and placed: "placed_from (ezcb_buckets s) 0 tbl" and cnt: "ezcb_count s = length (concat tbl)"
    by (simp_all add: registry_ok_def)
  have one: "map (filter (\<lambda>n. \<not> unregister_hit (Some name) f c n)) tbl =
               tbl[unat (ezcb_hash name) mod ezcb_buckets s :=
                     filter (\<lambda>n. \<not> unregister_hit (Some name) f c n) (tbl ! (unat (ezcb_hash name) mod ezcb_buckets s))]
             \<and> length (filter (unregister_hit (Some name) f c) (concat tbl)) =
               length (filter (unregister_hit (Some name) f c) (tbl ! (unat (ezcb_hash name) mod ezcb_buckets s)))"
    for name
  proof -
    let ?idx = "unat (ezcb_hash name) mod ezcb_buckets s"
    have idx: "?idx < length tbl" using len pos by simp
    have "\<forall>j<length tbl. j \<noteq> ?idx \<longrightarrow> (\<forall>n\<in>set (tbl ! j). \<not> unregister_hit (Some name) f c n)"
      using placed by (auto simp: placed_from_iff unregister_hit_def bucket_of_def)
    from filter_concat_one_bucket [OF idx this] show ?thesis by simp
  qed
  have main: "ezcb_unregister cfg t f c s =
           Inr (int (length (filter (unregister_hit t f c) (concat tbl))),
                released cfg (length (filter (unregister_hit t f c) (concat tbl)))
                  (s\<lparr>ezcb_table := Some (map (filter (\<lambda>n. \<not> unregister_hit t f c n)) tbl)\<rparr>))"
  proof (cases t)
    case None
    have "unregister_hit None f c = fn_ctx_match f c"
      by (auto simp: unregister_hit_def fn_ctx_match_def fun_eq_iff)
    with None assms(1) len show ?thesis
      by (simp add: ezcb_unregister_def unregister_buckets_filter)
  next
    case (Some name)
    let ?idx = "unat (ezcb_hash name) mod ezcb_buckets s"
    have idx: "?idx < length tbl" using len pos by simp
    have eq: "(\<lambda>n. trigger n = name \<and> fn_ctx_match f c n) = unregister_hit (Some name) f c"
      by (auto simp: unregister_hit_def fn_ctx_match_def fun_eq_iff)
    have "ezcb_unregister cfg t f c s =
            Inr (int (length (filter (unregister_hit (Some name) f c) (tbl ! ?idx))),
                 released cfg (length (filter (unregister_hit (Some name) f c) (tbl ! ?idx)))
                   (s\<lparr>ezcb_table := Some (tbl[?idx := filter (\<lambda>n. \<not> unregister_hit (Some name) f c n) (tbl ! ?idx)])\<rparr>))"
      using Some assms(1) pos idx
      by (simp add: ezcb_unregister_def Let_def unregister_walk_filter eq)
    with one [of name] Some show ?thesis by simp
  qed
  have all: "map (filter (\<lambda>n. \<not> unregister_hit None 0 0 n)) tbl = replicate (ezcb_buckets s) []"
  proof -
    have "map (filter (\<lambda>n. \<not> unregister_hit None 0 0 n)) tbl = map (\<lambda>_. []) tbl"
      by (simp add: unregister_hit_def)
    also have "\<dots> = replicate (length tbl) []" by (simp add: map_replicate_const)
    finally show ?thesis using len by simp
  qed
  have "length (filter (unregister_hit None 0 0) (concat tbl)) = ezcb_count s"
    using cnt by (simp add: unregister_hit_def)
  with main one all show ?thesis by auto
qed

text \<open>
  Claim C5 (unregister). On an initialized registry the call removes exactly the
  registrations that \<open>unregister_hit\<close> describes (every argument that is not NULL equals
  the registration's field), keeps all others in their order, and returns their number.
  With a trigger name only the bucket of that name changes; with three NULL arguments every
  chain is emptied and the return value is the former live count.
\<close>

theorem unregister_removes_exact_matches:
  assumes "ezcb_table s = Some tbl" and "registry_ok s"
  shows "ezcb_unregister cfg t f c s =
           Inr (int (length (filter (unregister_hit t f c) (concat tbl))),
                released cfg (length (filter (unregister_hit t f c) (concat tbl)))
                  (s\<lparr>ezcb_table := Some (map (filter (\<lambda>n. \<not> unregister_hit t f c n)) tbl)\<rparr>))
         \<and> (\<forall>name. t = Some name \<longrightarrow>
               map (filter (\<lambda>n. \<not> unregister_hit t f c n)) tbl =
               tbl[unat (ezcb_hash name) mod ezcb_buckets s :=
                     filter (\<lambda>n. \<not> unregister_hit t f c n) (tbl ! (unat (ezcb_hash name) mod ezcb_buckets s))])
         \<and> (t = None \<and> f = 0 \<and> c = 0 \<longrightarrow>
               map (filter (\<lambda>n. \<not> unregister_hit t f c n)) tbl = replicate (ezcb_buckets s) []
               \<and> length (filter (unregister_hit t f c) (concat tbl)) = ezcb_count s)"
  using assms by (rule unregister_result)

theorem unregister_removes_exact_matches_witness:
  "registry_ok (collide [node_a, node_b, node_a1])
   \<and> ezcb_unregister one_bucket (Some ''a'') 1 0 (collide [node_a, node_b, node_a1]) =
       Inr (2, collide [node_b])
   \<and> ezcb_unregister one_bucket None 0 7 (collide [node_a, node_b, node_a1]) =
       Inr (1, collide [node_a, node_b])
   \<and> ezcb_unregister one_bucket None 0 0 (collide [node_a, node_b, node_a1]) =
       Inr (3, collide [])"
proof -
  have ok: "registry_ok (collide [node_a, node_b, node_a1])"
    by (simp add: registry_ok_def bucket_of_def demo_defs)
  have tbl: "ezcb_table (collide [node_a, node_b, node_a1]) = Some [[node_a, node_b, node_a1]]"
    by (simp add: demo_defs)
  have "ezcb_unregister one_bucket (Some ''a'') 1 0 (collide [node_a, node_b, node_a1]) =
       Inr (2, collide [node_b])"
    using unregister_removes_exact_matches [OF tbl ok, of one_bucket "Some ''a''" 1 0]
    by (simp add: unregister_hit_def demo_defs)
  moreover have "ezcb_unregister one_bucket None 0 7 (collide [node_a, node_b, node_a1]) =
       Inr (1, collide [node_a, node_b])"
    using unregister_removes_exact_matches [OF tbl ok, of one_bucket None 0 7]
    by (simp add: unregister_hit_def demo_defs)
  moreover have "ezcb_unregister one_bucket None 0 0 (collide [node_a, node_b, node_a1]) =
       Inr (3, collide [])"
    using unregister_removes_exact_matches [OF tbl ok, of one_bucket None 0 0]
    by (simp add: unregister_hit_def demo_defs)
  ultimately show ?thesis using ok by simp
qed

subsection \<open>Resize\<close>

lemma rehash_node_length: "length (rehash_node m n nt) = length nt"
  by (simp add: rehash_node_def Let_def)

lemma rehash_chain_length: "length (rehash_chain m chain nt) = length nt"
  unfolding rehash_chain_def by (induction chain arbitrary: nt) (simp_all add: rehash_node_length)

lemma rehash_chain_nth:
  assumes "length nt = m" and "j < m"
  shows "rehash_chain m chain nt ! j = rev (filter (\<lambda>n. bucket_of m n = j) chain) @ nt ! j"
  using assms
proof (induction chain arbitrary: nt)
  case Nil
  show ?case by (simp add: rehash_chain_def)
next
  case (Cons n chain)
  have step: "rehash_chain m (n # chain) nt = rehash_chain m chain (rehash_node m n nt)"
    by (simp add: rehash_chain_def)
  have len: "length (rehash_node m n nt) = m" using Cons.prems by (simp add: rehash_node_length)
  have bnd: "bucket_of m n < length nt" using Cons.prems by (simp add: bucket_of_def)
  have "rehash_node m n nt ! j = (if bucket_of m n = j then n # nt ! j else nt ! j)"
    using Cons.prems bnd by (simp add: rehash_node_def bucket_of_def Let_def)
  with Cons.IH [OF len Cons.prems(2)] step show ?case by simp
qed

lemma rehash_table_fold_length:
  "length (fold (rehash_chain m) tbl nt) = length nt"
  by (induction tbl arbitrary: nt) (simp_all add: rehash_chain_length)

lemma rehash_table_fold_nth:
  assumes "length nt = m" and "j < m"
  shows "fold (rehash_chain m) tbl nt ! j = rev (filter (\<lambda>n. bucket_of m n = j) (concat tbl)) @ nt ! j"
  using assms
proof (induction tbl arbitrary: nt)
  case Nil
  show ?case by simp
next
  case (Cons chain tbl)
  have len: "length (rehash_chain m chain nt) = m" using Cons.prems by (simp add: rehash_chain_length)
  from Cons.IH [OF len Cons.prems(2)] rehash_chain_nth [OF Cons.prems, of chain]
  show ?case by simp
qed

lemma rehash_table_length: "length (rehash_table m tbl) = m"
  by (simp add: rehash_table_def rehash_table_fold_length)

lemma rehash_table_nth:
  "j < m \<Longrightarrow> rehash_table m tbl ! j = rev (filter (\<lambda>n. bucket_of m n = j) (concat tbl))"
  by (simp add: rehash_table_def rehash_table_fold_nth)

lemma rehash_table_placed: "placed_from m 0 (rehash_table m tbl)"
  by (simp add: placed_from_iff rehash_table_length rehash_table_nth)

lemma mset_concat_buckets:
  assumes "length tbl = m" and "\<forall>j<m. tbl ! j = f j"
  shows "mset (concat tbl) = (\<Sum>j<m. mset (f j))"
  using assms
proof (induction tbl arbitrary: m rule: rev_induct)
  case Nil
  then show ?case by simp
next
  case (snoc chain tbl)
  from snoc.prems obtain m' where m: "m = Suc m'" and len: "length tbl = m'" by (cases m) auto
  have "\<forall>j<m'. tbl ! j = f j"
  proof (intro allI impI)
    fix j assume "j < m'"
    with snoc.prems(2) m len show "tbl ! j = f j" by (auto simp: nth_append dest!: spec [of _ j])
  qed
  from snoc.IH [OF len this] have ih: "mset (concat tbl) = (\<Sum>j<m'. mset (f j))" .
  have "chain = f m'" using snoc.prems(2) m len by (auto simp: nth_append dest!: spec [of _ m'])
  with ih m show ?case by simp
qed

lemma mset_filter_buckets:
  "0 < m \<Longrightarrow> (\<Sum>j<m. mset (filter (\<lambda>n. bucket_of m n = j) xs)) = mset xs"
proof (induction xs)
  case Nil
  show ?case by simp
next
  case (Cons n xs)
  have b: "bucket_of m n < m" using Cons.prems by (simp add: bucket_of_def)
  have "(\<Sum>j<m. mset (filter (\<lambda>n. bucket_of m n = j) (n # xs))) =
        (\<Sum>j<m. (if j = bucket_of m n then {#n#} else {#}) + mset (filter (\<lambda>n. bucket_of m n = j) xs))"
    by (rule sum.cong) auto
  also have "\<dots> = (\<Sum>j<m. (if j = bucket_of m n then {#n#} else {#})) + (\<Sum>j<m. mset (filter (\<lambda>n. bucket_of m n = j) xs))"
    by (simp add: sum.distrib)
  also have "(\<Sum>j<m. (if j = bucket_of m n then {#n#} else {#})) = {#n#}"
    using b by (simp add: sum.delta)
  finally show ?case using Cons.IH [OF Cons.prems] by simp
qed

lemma rehash_table_mset:
  assumes "0 < m"
  shows "mset (concat (rehash_table m tbl)) = mset (concat tbl)"
proof -
  have "mset (concat (rehash_table m tbl)) =
        (\<Sum>j<m. mset (rev (filter (\<lambda>n. bucket_of m n = j) (concat tbl))))"
    by (rule mset_concat_buckets) (simp_all add: rehash_table_length rehash_table_nth)
  also have "\<dots> = (\<Sum>j<m. mset (filter (\<lambda>n. bucket_of m n = j) (concat tbl)))" by simp
  also have "\<dots> = mset (concat tbl)" using assms by (rule mset_filter_buckets)
  finally show ?thesis .
qed

subsection \<open>Register\<close>

lemma chain_insert_mset: "mset (chain_insert t p node chain) = add_mset node (mset chain)"
  by (induction chain) simp_all

lemma mset_concat_update:
  "i < length tbl \<Longrightarrow> mset (concat (tbl[i := ch])) + mset (tbl ! i) = mset (concat tbl) + mset ch"
proof (induction tbl arbitrary: i)
  case Nil
  then show ?case by simp
next
  case (Cons a tbl)
  show ?case
  proof (cases i)
    case 0
    then show ?thesis by simp
  next
    case (Suc j)
    with Cons.prems have "j < length tbl" by simp
    from Cons.IH [OF this] Suc show ?thesis by (simp add: ac_simps)
  qed
qed

lemma placed_from_update:
  assumes "placed_from m 0 tbl" and "i < length tbl" and "\<forall>n\<in>set ch. bucket_of m n = i"
  shows "placed_from m 0 (tbl[i := ch])"
  using assms by (auto simp: placed_from_iff nth_list_update)

lemma registry_ok_update_chain:
  assumes "registry_ok s" and "ezcb_table s = Some tbl" and "i < length tbl"
    and "\<forall>n\<in>set ch. bucket_of (ezcb_buckets s) n = i"
    and "cnt + length (tbl ! i) = ezcb_count s + length ch"
  shows "registry_ok (s\<lparr>ezcb_table := Some (tbl[i := ch]), ezcb_count := cnt\<rparr>)"
proof -
  from assms(1,2) have len: "length tbl = ezcb_buckets s" and pos: "0 < ezcb_buckets s"
    and placed: "placed_from (ezcb_buckets s) 0 tbl" and c: "ezcb_count s = length (concat tbl)"
    by (simp_all add: registry_ok_def)
  have "size (mset (concat (tbl[i := ch])) + mset (tbl ! i)) = size (mset (concat tbl) + mset ch)"
    using mset_concat_update [OF assms(3), of ch] by simp
  then have "length (concat (tbl[i := ch])) + length (tbl ! i) = length (concat tbl) + length ch"
    by simp
  with assms(5) c have "cnt = length (concat (tbl[i := ch]))" by simp
  with len pos placed_from_update [OF placed assms(3,4)] show ?thesis
    by (simp add: registry_ok_def)
qed

lemma register_link_ok:
  fixes t :: string and p :: "8 word" and f c :: ptr and oflag :: bool
  assumes "registry_ok s" and "ezcb_table s = Some tbl"
  defines "idx \<equiv> unat (ezcb_hash t) mod ezcb_buckets s"
  defines "node \<equiv> \<lparr>trigger = t, priority = p, once = oflag, fn = f, ctx = c\<rparr>"
  defines "s' \<equiv> s\<lparr>ezcb_table := Some (tbl[idx := chain_insert t p node (tbl ! idx)]),
                    ezcb_count := ezcb_count s + 1\<rparr>"
  shows "register_link t p f c oflag s = Inr (0, s')"
    and "registry_ok s'"
    and "mset (all_nodes s') = add_mset node (mset (all_nodes s))"
proof -
  from assms(1,2) have len: "length tbl = ezcb_buckets s" and pos: "0 < ezcb_buckets s"
    by (simp_all add: registry_ok_def)
  then have idx: "idx < length tbl" by (simp add: idx_def)
  show "register_link t p f c oflag s = Inr (0, s')"
    using assms(2) pos idx by (simp add: register_link_def Let_def idx_def node_def s'_def)
  have "\<forall>n\<in>set (chain_insert t p node (tbl ! idx)). bucket_of (ezcb_buckets s) n = idx"
  proof
    fix n assume "n \<in> set (chain_insert t p node (tbl ! idx))"
    then have "n \<in># mset (chain_insert t p node (tbl ! idx))" by simp
    then have "n = node \<or> n \<in> set (tbl ! idx)" by (simp add: chain_insert_mset)
    moreover have "bucket_of (ezcb_buckets s) node = idx" by (simp add: bucket_of_def node_def idx_def)
    moreover have "n \<in> set (tbl ! idx) \<Longrightarrow> bucket_of (ezcb_buckets s) n = idx"
      using assms(1,2) idx by (simp add: registry_ok_def placed_from_iff)
    ultimately show "bucket_of (ezcb_buckets s) n = idx" by blast
  qed
  moreover have "length (chain_insert t p node (tbl ! idx)) = Suc (length (tbl ! idx))"
    using arg_cong [OF chain_insert_mset [of t p node "tbl ! idx"], of size] by simp
  ultimately show "registry_ok s'"
    unfolding s'_def by (intro registry_ok_update_chain [OF assms(1,2) idx]) simp_all
  have "mset (concat (tbl[idx := chain_insert t p node (tbl ! idx)])) + mset (tbl ! idx)
          = mset (concat tbl) + add_mset node (mset (tbl ! idx))"
    using mset_concat_update [OF idx] by (simp add: chain_insert_mset)
  then have "mset (concat (tbl[idx := chain_insert t p node (tbl ! idx)])) = add_mset node (mset (concat tbl))"
    by simp
  then show "mset (all_nodes s') = add_mset node (mset (all_nodes s))"
    using assms(2) by (simp add: all_nodes_def s'_def)
qed

lemma ezcb_init_active: "ezcb_table s \<noteq> None \<Longrightarrow> ezcb_init cfg h s = s"
  by (simp add: ezcb_init_def)

lemma ezcb_init_ok:
  assumes "ezcb_table s = None" and "EZCB_NO_MALLOC cfg \<longrightarrow> 0 < EZCB_MAX_BUCKETS cfg"
  shows "registry_ok (ezcb_init cfg h s)" and "all_nodes (ezcb_init cfg h s) = []"
  using assms by (simp_all add: ezcb_init_def registry_ok_def all_nodes_def placed_from_iff)

lemma resize_grown_ok:
  assumes "registry_ok s" and "ezcb_table s = Some tbl"
  defines "grown \<equiv> s\<lparr>ezcb_table := Some (rehash_table (ezcb_buckets s * 2) tbl),
                       ezcb_buckets := ezcb_buckets s * 2\<rparr>"
  shows "ezcb_resize h (ezcb_buckets s * 2) s = (if calloc_ok h then Inr (0, grown) else Inr (- 1, s))"
    and "registry_ok grown"
    and "mset (all_nodes grown) = mset (all_nodes s)"
proof -
  from assms(1,2) have len: "length tbl = ezcb_buckets s" and pos: "0 < ezcb_buckets s"
    and c: "ezcb_count s = length (concat tbl)"
    by (simp_all add: registry_ok_def)
  show "ezcb_resize h (ezcb_buckets s * 2) s = (if calloc_ok h then Inr (0, grown) else Inr (- 1, s))"
    using assms(2) len pos by (simp add: ezcb_resize_def grown_def)
  have m: "mset (concat (rehash_table (ezcb_buckets s * 2) tbl)) = mset (concat tbl)"
    using pos by (simp add: rehash_table_mset)
  then show "mset (all_nodes grown) = mset (all_nodes s)"
    using assms(2) by (simp add: all_nodes_def grown_def)
  have "length (concat (rehash_table (ezcb_buckets s * 2) tbl)) = length (concat tbl)"
    using arg_cong [OF m, of size] by simp
  with pos c show "registry_ok grown"
    by (simp add: registry_ok_def grown_def rehash_table_length rehash_table_placed)
qed

text \<open>
  Claim C7, as amended (name length in the static mode). A name of at least
  \<open>EZCB_MAX_TRIGGER_LENGTH\<close> bytes is rejected with -1 whatever the free list holds, and
  the state after the call is the state after the implicit initialization: the state
  before the call when the registry was initialized. A name one byte shorter is accepted
  when the free list is not empty: the node is linked and taken from the free list.
\<close>

theorem static_register_name_length:
  fixes cfg :: ezcb_config and h :: heap and s :: ezcb_state
    and t :: string and p :: "8 word" and f c :: ptr and oflag :: bool
  assumes "EZCB_NO_MALLOC cfg"
  defines "s1 \<equiv> (if ezcb_table s = None then ezcb_init cfg h s else s)"
  defines "node \<equiv> \<lparr>trigger = t, priority = p, once = oflag, fn = f, ctx = c\<rparr>"
  defines "idx \<equiv> unat (ezcb_hash t) mod ezcb_buckets s1"
  shows "(EZCB_MAX_TRIGGER_LENGTH cfg \<le> length t \<longrightarrow>
            ezcb_register_internal cfg h t p f c oflag s = Inr (- 1, s1))
       \<and> (ezcb_table s \<noteq> None \<longrightarrow> s1 = s)
       \<and> (\<forall>tbl. Suc (length t) = EZCB_MAX_TRIGGER_LENGTH cfg \<and> registry_ok s1
                 \<and> ezcb_table s1 = Some tbl \<and> 0 < ezcb_free_list s1 \<longrightarrow>
            ezcb_register_internal cfg h t p f c oflag s =
              Inr (0, s1\<lparr>ezcb_table := Some (tbl[idx := chain_insert t p node (tbl ! idx)]),
                         ezcb_count := ezcb_count s1 + 1,
                         ezcb_free_list := ezcb_free_list s1 - 1\<rparr>))"
proof -
  have a: "EZCB_MAX_TRIGGER_LENGTH cfg \<le> length t \<Longrightarrow>
            ezcb_register_internal cfg h t p f c oflag s = Inr (- 1, s1)"
    using assms(1) by (simp add: ezcb_register_internal_def register_precheck_def s1_def)
  have b: "ezcb_table s \<noteq> None \<Longrightarrow> s1 = s" by (auto simp: s1_def)
  have c: "ezcb_register_internal cfg h t p f c oflag s =
              Inr (0, s1\<lparr>ezcb_table := Some (tbl[idx := chain_insert t p node (tbl ! idx)]),
                         ezcb_count := ezcb_count s1 + 1,
                         ezcb_free_list := ezcb_free_list s1 - 1\<rparr>)"
    if h: "Suc (length t) = EZCB_MAX_TRIGGER_LENGTH cfg" "registry_ok s1"
          "ezcb_table s1 = Some tbl" "0 < ezcb_free_list s1" for tbl
  proof -
    let ?s3 = "s1\<lparr>ezcb_free_list := ezcb_free_list s1 - 1\<rparr>"
    have ok3: "registry_ok ?s3" and t3: "ezcb_table ?s3 = Some tbl"
      using h(2,3) by (simp_all add: registry_ok_def)
    have "register_link t p f c oflag ?s3 =
            Inr (0, s1\<lparr>ezcb_table := Some (tbl[idx := chain_insert t p node (tbl ! idx)]),
                       ezcb_count := ezcb_count s1 + 1,
                       ezcb_free_list := ezcb_free_list s1 - 1\<rparr>)"
      using register_link_ok(1) [OF ok3 t3, of t p f c oflag] by (simp add: node_def idx_def)
    moreover have "length t < EZCB_MAX_TRIGGER_LENGTH cfg" using h(1) by simp
    ultimately show ?thesis
      using assms(1) h(4)
      by (simp add: ezcb_register_internal_def register_precheck_def ezcb_node_alloc_def
          s1_def [symmetric] Let_def)
  qed
  from a b c show ?thesis by blast
qed

text \<open>
  The claim C7 as stated fails on a registry that is not initialized: the rejected call has
  initialized it.
\<close>

theorem static_register_long_name_initializes:
  "EZCB_NO_MALLOC one_bucket
   \<and> EZCB_MAX_TRIGGER_LENGTH one_bucket \<le> length ''abcdefgh''
   \<and> ezcb_register_internal one_bucket heap_ok ''abcdefgh'' 5 1 0 False (ezcb_startup one_bucket)
       = Inr (- 1, collide [])
   \<and> collide [] \<noteq> ezcb_startup one_bucket"
  by (simp add: ezcb_register_internal_def register_precheck_def ezcb_init_def demo_defs)

theorem static_register_name_length_witness:
  "ezcb_register_internal one_bucket heap_ok ''abcdefgh'' 5 1 0 False (collide [node_b]) = Inr (- 1, collide [node_b])
   \<and> ezcb_register_internal one_bucket heap_ok ''abcdefgh'' 5 1 0 False (collide [node_a, node_b, node_a, node_b]) =
       Inr (- 1, collide [node_a, node_b, node_a, node_b])
   \<and> ezcb_register_internal one_bucket heap_ok ''abcdefg'' 5 1 0 False (collide [node_b]) =
       Inr (0, collide [node_b, \<lparr>trigger = ''abcdefg'', priority = 5, once = False, fn = 1, ctx = 0\<rparr>])"
proof -
  have nm: "EZCB_NO_MALLOC one_bucket" by (simp add: one_bucket_def)
  have "ezcb_register_internal one_bucket heap_ok ''abcdefgh'' 5 1 0 False (collide [node_b]) = Inr (- 1, collide [node_b])"
    using static_register_name_length [OF nm, of "''abcdefgh''" heap_ok 5 1 0 False "collide [node_b]"]
    by (simp add: demo_defs)
  moreover have "ezcb_register_internal one_bucket heap_ok ''abcdefgh'' 5 1 0 False (collide [node_a, node_b, node_a, node_b]) =
       Inr (- 1, collide [node_a, node_b, node_a, node_b])"
    using static_register_name_length [OF nm, of "''abcdefgh''" heap_ok 5 1 0 False "collide [node_a, node_b, node_a, node_b]"]
    by (simp add: demo_defs)
  moreover have "ezcb_register_internal one_bucket heap_ok ''abcdefg'' 5 1 0 False (collide [node_b]) =
       Inr (0, collide [node_b, \<lparr>trigger = ''abcdefg'', priority = 5, once = False, fn = 1, ctx = 0\<rparr>])"
    using static_register_name_length [OF nm, of "''abcdefg''" heap_ok 5 1 0 False "collide [node_b]"]
    by (simp add: demo_defs registry_ok_def bucket_of_def)
  ultimately show ?thesis by simp
qed

subsection \<open>Growth against priority order\<close>

lemma hash_a: "ezcb_hash ''a'' = 177604"
  by (simp add: ezcb_hash_def)

lemma hash_b: "ezcb_hash ''b'' = 177607"
  by (simp add: ezcb_hash_def)

lemma concat_replicate_update: "i < m \<Longrightarrow> concat ((replicate m [])[i := ch]) = ch"
proof (induction m arbitrary: i)
  case 0
  then show ?case by simp
next
  case (Suc m)
  then show ?case by (cases i) simp_all
qed

lemmas reg_defs = ezcb_register_internal_def register_precheck_def ezcb_node_alloc_def register_link_def
  ezcb_init_def ezcb_startup_def header_defaults_def heap_ok_def hash_a hash_b Let_def

text \<open>
  Claim C1 (priority order is an invariant of every operation, growth included). The code
  breaks it: \<open>ezcb_resize\<close> pushes every node at the head of its new chain, so the nodes of
  one trigger come out in the reverse of their old order. Evaluated on the default malloc
  build: after twelve registrations of \<open>''a''\<close> with priorities 12 down to 1, a trigger calls
  the callbacks from priority 12 down to 1; the thirteenth registration (of another
  trigger) grows the table from 16 to 32 buckets, and the same trigger then calls them from
  priority 1 up to 12.
\<close>

theorem resize_reverses_priority_order:
  "(case register_calls header_defaults heap_ok grow_calls (ezcb_startup header_defaults) of
      Inl e \<Rightarrow> False
    | Inr (rcs, s) \<Rightarrow>
        rcs = [0, 0, 0, 0, 0, 0, 0, 0, 0, 0, 0, 0] \<and> ezcb_buckets s = 16 \<and>
        (case ezcb_trigger header_defaults always_continue ''a'' 0 s () of
           Inl e \<Rightarrow> False
         | Inr (s', log, u) \<Rightarrow> map (\<lambda>(n, r). (priority n, fn n)) log =
             [(12, 1), (11, 2), (10, 3), (9, 4), (8, 5), (7, 6), (6, 7), (5, 8), (4, 9), (3, 10), (2, 11), (1, 12)]))
   \<and> (case register_calls header_defaults heap_ok (grow_calls @ [(''b'', 0, 13, 0, False)])
             (ezcb_startup header_defaults) of
      Inl e \<Rightarrow> False
    | Inr (rcs, s) \<Rightarrow>
        rcs = [0, 0, 0, 0, 0, 0, 0, 0, 0, 0, 0, 0, 0] \<and> ezcb_buckets s = 32 \<and>
        (case ezcb_trigger header_defaults always_continue ''a'' 0 s () of
           Inl e \<Rightarrow> False
         | Inr (s', log, u) \<Rightarrow> map (\<lambda>(n, r). (priority n, fn n)) log =
             [(1, 12), (2, 11), (3, 10), (4, 9), (5, 8), (6, 7), (7, 6), (8, 5), (9, 4), (10, 3), (11, 2), (12, 1)]))"
  by (simp add: grow_calls_def reg_defs ezcb_trigger_def always_continue_def released_def
      ezcb_resize_def rehash_table_length rehash_table_nth concat_replicate_update bucket_of_def)

subsection \<open>The uninitialized registry\<close>

text \<open>
  The uninitialized registry where the table can be allocated. With a NULL table:
  unregister returns 0, trigger invokes nothing, deinit returns, and each leaves the
  state as it is, whatever the allocator does. An init that got its table (always in the
  static mode, with a successful \<^verbatim>\<open>calloc\<close> in the malloc mode) makes a second init a
  no-op. Register does what it does after an init, and with the resources it needs it
  returns 0 and leaves one node in the bucket of its trigger.
\<close>

theorem uninitialized_registry_operations:
  fixes cfg :: ezcb_config and h h' :: heap and s :: ezcb_state
    and t :: string and p :: "8 word" and f c d :: ptr and oflag :: bool
  assumes "ezcb_table s = None"
  defines "m \<equiv> (if EZCB_NO_MALLOC cfg then EZCB_MAX_BUCKETS cfg else 16)"
  shows "ezcb_unregister cfg topt uf uc s = Inr (0, s)
       \<and> ezcb_trigger cfg cb t d s u = Inr (s, [], u)
       \<and> ezcb_deinit cfg s = Inr s
       \<and> (EZCB_NO_MALLOC cfg \<or> calloc_ok h \<longrightarrow>
            ezcb_table (ezcb_init cfg h s) = Some (replicate m [])
            \<and> ezcb_init cfg h' (ezcb_init cfg h s) = ezcb_init cfg h s)
       \<and> ezcb_register_internal cfg h t p f c oflag s =
           ezcb_register_internal cfg h t p f c oflag (ezcb_init cfg h s)
       \<and> ((if EZCB_NO_MALLOC cfg
            then 0 < EZCB_MAX_BUCKETS cfg \<and> 0 < EZCB_MAX_NODES cfg \<and> length t < EZCB_MAX_TRIGGER_LENGTH cfg
            else calloc_ok h \<and> malloc_ok h) \<longrightarrow>
            ezcb_register_internal cfg h t p f c oflag s =
              Inr (0, (ezcb_init cfg h s)
                        \<lparr>ezcb_table := Some ((replicate m [])
                             [unat (ezcb_hash t) mod m :=
                                [\<lparr>trigger = t, priority = p, once = oflag, fn = f, ctx = c\<rparr>]]),
                         ezcb_count := 1,
                         ezcb_free_list := (if EZCB_NO_MALLOC cfg then EZCB_MAX_NODES cfg - 1
                                            else ezcb_free_list s)\<rparr>))"
proof -
  have a: "ezcb_unregister cfg topt uf uc s = Inr (0, s)"
    using assms(1) by (simp add: ezcb_unregister_def)
  have b: "ezcb_trigger cfg cb t d s u = Inr (s, [], u)"
    using assms(1) by (simp add: ezcb_trigger_def)
  have c: "ezcb_deinit cfg s = Inr s"
    using assms(1) by (simp add: ezcb_deinit_def)
  have d: "ezcb_table (ezcb_init cfg h s) = Some (replicate m [])
            \<and> ezcb_init cfg h' (ezcb_init cfg h s) = ezcb_init cfg h s"
    if "EZCB_NO_MALLOC cfg \<or> calloc_ok h"
    using that assms(1) by (auto simp: ezcb_init_def m_def)
  have e: "ezcb_register_internal cfg h t p f c oflag s =
           ezcb_register_internal cfg h t p f c oflag (ezcb_init cfg h s)"
    using assms(1) by (simp add: ezcb_register_internal_def ezcb_init_def)
  have g: "ezcb_register_internal cfg h t p f c oflag s =
              Inr (0, (ezcb_init cfg h s)
                        \<lparr>ezcb_table := Some ((replicate m [])
                             [unat (ezcb_hash t) mod m :=
                                [\<lparr>trigger = t, priority = p, once = oflag, fn = f, ctx = c\<rparr>]]),
                         ezcb_count := 1,
                         ezcb_free_list := (if EZCB_NO_MALLOC cfg then EZCB_MAX_NODES cfg - 1
                                            else ezcb_free_list s)\<rparr>)"
    if "if EZCB_NO_MALLOC cfg
        then 0 < EZCB_MAX_BUCKETS cfg \<and> 0 < EZCB_MAX_NODES cfg \<and> length t < EZCB_MAX_TRIGGER_LENGTH cfg
        else calloc_ok h \<and> malloc_ok h"
  proof (cases "EZCB_NO_MALLOC cfg")
    case True
    with that assms(1) show ?thesis
      by (simp add: ezcb_register_internal_def ezcb_init_def register_precheck_def
          ezcb_node_alloc_def register_link_def Let_def m_def not_le)
  next
    case False
    with that assms(1) show ?thesis
      by (simp add: ezcb_register_internal_def ezcb_init_def register_precheck_def
          ezcb_node_alloc_def register_link_def Let_def m_def)
  qed
  from a b c d e g show ?thesis by blast
qed

theorem uninitialized_registry_operations_witness:
  "ezcb_table (ezcb_startup one_bucket) = None
   \<and> ezcb_unregister one_bucket None 0 0 (ezcb_startup one_bucket) = Inr (0, ezcb_startup one_bucket)
   \<and> ezcb_trigger one_bucket stop_at_1 ''a'' 9 (ezcb_startup one_bucket) 0 = Inr (ezcb_startup one_bucket, [], 0)
   \<and> ezcb_deinit one_bucket (ezcb_startup one_bucket) = Inr (ezcb_startup one_bucket)
   \<and> ezcb_init one_bucket heap_ok (ezcb_startup one_bucket) = collide []
   \<and> ezcb_init one_bucket heap_ok (ezcb_init one_bucket heap_ok (ezcb_startup one_bucket)) = collide []
   \<and> ezcb_register_internal one_bucket heap_ok ''a'' 5 1 0 False (ezcb_startup one_bucket) = Inr (0, collide [node_a])"
proof -
  have n: "ezcb_table (ezcb_startup one_bucket) = None" by (simp add: ezcb_startup_def)
  have i: "ezcb_init one_bucket heap_ok (ezcb_startup one_bucket) = collide []"
    by (simp add: ezcb_init_def demo_defs)
  note w = uninitialized_registry_operations [OF n, where cfg = one_bucket and topt = None
      and uf = 0 and uc = 0 and f = 1 and c = 0 and cb = stop_at_1 and t = "''a''" and d = 9 and u = 0 and h = heap_ok
      and h' = heap_ok and p = 5 and oflag = False]
  from w have "ezcb_unregister one_bucket None 0 0 (ezcb_startup one_bucket) = Inr (0, ezcb_startup one_bucket)"
    by simp
  moreover from w have "ezcb_trigger one_bucket stop_at_1 ''a'' 9 (ezcb_startup one_bucket) 0 = Inr (ezcb_startup one_bucket, [], 0)"
    by simp
  moreover from w have "ezcb_deinit one_bucket (ezcb_startup one_bucket) = Inr (ezcb_startup one_bucket)"
    by simp
  moreover from w i have "ezcb_init one_bucket heap_ok (ezcb_init one_bucket heap_ok (ezcb_startup one_bucket)) = collide []"
    by (simp add: one_bucket_def)
  moreover have "ezcb_register_internal one_bucket heap_ok ''a'' 5 1 0 False (ezcb_startup one_bucket) = Inr (0, collide [node_a])"
    using w [THEN conjunct2, THEN conjunct2, THEN conjunct2, THEN conjunct2, THEN conjunct2]
    by (simp add: demo_defs ezcb_init_def)
  ultimately show ?thesis using n i by simp
qed

text \<open>
  Claim C8 (on the uninitialized registry a second init is a no-op, unregister, trigger
  and deinit do nothing, and register initializes and then proceeds normally). The code
  breaks it in the malloc mode: \<open>ezcb_init\<close> does not test the result of \<^verbatim>\<open>calloc\<close>, so an init
  that did not get its table records 16 buckets and leaves the NULL table. Evaluated on
  the default build from start-up, with \<^verbatim>\<open>calloc\<close> failing and \<^verbatim>\<open>malloc\<close> succeeding: the
  implicit init of register leaves the NULL table and register then links its node
  through it, where the header documents a negative return value on allocation failure;
  and an init after the failed one is not a no-op. The sibling paths do test their
  allocations: register on a table of 16 buckets holding 12 nodes returns -1 when the
  \<^verbatim>\<open>calloc\<close> of the doubled table fails, and register from start-up returns -1 when the
  \<^verbatim>\<open>malloc\<close> of the node fails.
\<close>

theorem register_after_failed_init_reads_null_table:
  "ezcb_init header_defaults \<lparr>calloc_ok = False, malloc_ok = True\<rparr> (ezcb_startup header_defaults)
     = (ezcb_startup header_defaults)\<lparr>ezcb_buckets := 16\<rparr>
   \<and> ezcb_table (ezcb_startup header_defaults) = None
   \<and> ezcb_register_internal header_defaults \<lparr>calloc_ok = False, malloc_ok = True\<rparr> ''a'' 0 1 0 False
         (ezcb_startup header_defaults) = Inl NullTableDeref
   \<and> ezcb_init header_defaults heap_ok
         (ezcb_init header_defaults \<lparr>calloc_ok = False, malloc_ok = True\<rparr> (ezcb_startup header_defaults))
       = sixteen []
   \<and> sixteen [] \<noteq> ezcb_init header_defaults \<lparr>calloc_ok = False, malloc_ok = True\<rparr> (ezcb_startup header_defaults)
   \<and> ezcb_register_internal header_defaults \<lparr>calloc_ok = False, malloc_ok = True\<rparr> ''b'' 0 13 0 False
         (sixteen (replicate 12 node_a)) = Inr (- 1, sixteen (replicate 12 node_a))
   \<and> ezcb_register_internal header_defaults \<lparr>calloc_ok = True, malloc_ok = False\<rparr> ''a'' 0 1 0 False
         (ezcb_startup header_defaults) = Inr (- 1, sixteen [])"
proof -
  have same: "(replicate 16 ([] :: ezcb_node_t list))[4 := []] = replicate 16 []"
    by (simp add: list_update_same_conv)
  show ?thesis
    by (simp add: ezcb_init_def ezcb_startup_def header_defaults_def heap_ok_def sixteen_def
        ezcb_register_internal_def register_precheck_def ezcb_resize_def ezcb_node_alloc_def
        register_link_def hash_a same)
qed

subsection \<open>The deferred queue\<close>

lemma unat_evt_next:
  assumes "0 < EZCB_EVENT_QUEUE_SIZE cfg" and "unat i < ring_size cfg"
  shows "unat (evt_next cfg i) = (unat i + 1) mod ring_size cfg"
proof (cases "EZCB_EVENT_QUEUE_SIZE cfg \<le> 256")
  case True
  then have r: "ring_size cfg = EZCB_EVENT_QUEUE_SIZE cfg" by (simp add: ring_size_def)
  have "(unat i + 1) mod EZCB_EVENT_QUEUE_SIZE cfg < EZCB_EVENT_QUEUE_SIZE cfg"
    using assms(1) by simp
  with True have "(unat i + 1) mod EZCB_EVENT_QUEUE_SIZE cfg < 256" by linarith
  then show ?thesis by (simp add: evt_next_def unat_of_nat r)
next
  case False
  then have r: "ring_size cfg = 256" by (simp add: ring_size_def)
  with assms(2) False have "unat i + 1 < EZCB_EVENT_QUEUE_SIZE cfg" by simp
  then have "(unat i + 1) mod EZCB_EVENT_QUEUE_SIZE cfg = unat i + 1" by simp
  moreover have "unat (of_nat ((unat i + 1) mod EZCB_EVENT_QUEUE_SIZE cfg) :: 8 word)
      = ((unat i + 1) mod EZCB_EVENT_QUEUE_SIZE cfg) mod 2 ^ LENGTH(8)"
    by (rule unat_of_nat)
  ultimately show ?thesis by (simp add: evt_next_def r)
qed

lemma ring_full_iff:
  fixes h t r :: nat
  assumes "h < r" and "t < r"
  shows "(h + 1) mod r = t \<longleftrightarrow> (h + r - t) mod r = r - 1"
proof (cases "t \<le> h")
  case True
  then have e: "h + r - t = (h - t) + r" by simp
  have "(h + r - t) mod r = h - t" unfolding e using assms by simp
  moreover have "(h + 1) mod r = (if h + 1 = r then 0 else h + 1)" using assms by (simp add: mod_Suc)
  ultimately show ?thesis using True assms by auto
next
  case False
  with assms have "h + r - t < r" "h + 1 < r" by simp_all
  then show ?thesis using False assms by auto
qed

lemma ring_count_push:
  fixes h t r :: nat
  assumes "h < r" and "t < r" and "(h + r - t) mod r \<noteq> r - 1"
  shows "((h + 1) mod r + r - t) mod r = Suc ((h + r - t) mod r)"
proof -
  have "((h + 1) mod r + r - t) mod r = ((h + 1) mod r + (r - t)) mod r" using assms by simp
  also have "\<dots> = ((h + 1) + (r - t)) mod r" by (simp add: mod_add_left_eq)
  also have "(h + 1) + (r - t) = Suc (h + r - t)" using assms by simp
  also have "Suc (h + r - t) mod r = Suc ((h + r - t) mod r)"
    using assms(1,3) by (simp add: mod_Suc)
  finally show ?thesis .
qed

lemma ring_count_pop:
  fixes h t r :: nat
  assumes "h < r" and "t < r" and "h \<noteq> t"
  shows "Suc ((h + r - (t + 1) mod r) mod r) = (h + r - t) mod r"
proof (cases "t + 1 = r")
  case True
  then have "(t + 1) mod r = 0" by simp
  moreover have "(h + r - t) mod r = Suc h"
    using True assms by (cases "h + 1 = r") (auto simp: mod_Suc)
  ultimately show ?thesis using assms by simp
next
  case False
  with assms have t1: "(t + 1) mod r = t + 1" by simp
  show ?thesis
  proof (cases "t \<le> h")
    case True
    with assms(3) obtain k where k: "h = t + Suc k" by (metis le_neq_implies_less less_imp_Suc_add add_Suc_right)
    with assms(1) have kr: "Suc k < r" by simp
    have "(h + r - t) mod r = (Suc k + r) mod r" using k by simp
    also have "\<dots> = Suc k mod r" by (simp only: mod_add_self2)
    also have "\<dots> = Suc k" using kr by simp
    finally have a: "(h + r - t) mod r = Suc k" .
    have "(h + r - (t + 1) mod r) mod r = (k + r) mod r" using k t1 by simp
    also have "\<dots> = k" using kr by simp
    finally show ?thesis using a by simp
  next
    case nle: False
    with assms False have "h + r - t < r" "h + r - (t + 1) < r" "0 < h + r - t" by simp_all
    then show ?thesis using t1 by simp
  qed
qed

lemma ring_count_zero:
  fixes h t r :: nat
  assumes "h < r" and "t < r"
  shows "(h + r - t) mod r = 0 \<longleftrightarrow> h = t"
proof (cases "t \<le> h")
  case True
  then have e: "h + r - t = (h - t) + r" by simp
  have "(h + r - t) mod r = h - t" unfolding e using assms by simp
  with True show ?thesis by auto
next
  case False
  with assms have "h + r - t < r" "0 < h + r - t" by simp_all
  then show ?thesis using False by auto
qed

lemma ring_index_last:
  fixes h t r :: nat
  assumes "h < r" and "t < r"
  shows "(t + (h + r - t) mod r) mod r = h"
proof -
  have "(t + (h + r - t) mod r) mod r = (t + (h + r - t)) mod r" by (simp add: mod_add_right_eq)
  also have "t + (h + r - t) = h + r" using assms by simp
  finally show ?thesis using assms by simp
qed

lemma ring_index_before:
  fixes h t r i :: nat
  assumes "h < r" and "t < r" and "i < (h + r - t) mod r"
  shows "(t + i) mod r \<noteq> h"
proof
  assume e: "(t + i) mod r = h"
  have "0 < r" using assms(1) by simp
  then have "(h + r - t) mod r < r" by simp
  with assms(3) have ir: "i < r" by linarith
  have "(h + r - t) mod r = ((t + i) mod r + (r - t)) mod r" using e assms by simp
  also have "\<dots> = ((t + i) + (r - t)) mod r" by (simp add: mod_add_left_eq)
  also have "(t + i) + (r - t) = i + r" using assms by simp
  also have "(i + r) mod r = i" using ir by simp
  finally show False using assms(3) by simp
qed

lemma evt_pending_count_less: "queue_ok cfg s \<Longrightarrow> evt_pending_count cfg s < ring_size cfg"
  by (simp add: queue_ok_def evt_pending_count_def)

lemma length_evt_pending: "length (evt_pending cfg s) = evt_pending_count cfg s"
  by (simp add: evt_pending_def)

lemma ring_le_size: "ring_size cfg \<le> EZCB_EVENT_QUEUE_SIZE cfg"
  by (simp add: ring_size_def)

lemma isr_full_iff:
  assumes "queue_ok cfg s"
  shows "evt_next cfg (ezcb_evt_head s) = ezcb_evt_tail s \<longleftrightarrow> evt_pending_count cfg s = ring_size cfg - 1"
proof -
  from assms have n: "0 < EZCB_EVENT_QUEUE_SIZE cfg" and h: "unat (ezcb_evt_head s) < ring_size cfg"
    and t: "unat (ezcb_evt_tail s) < ring_size cfg" by (simp_all add: queue_ok_def)
  have "evt_next cfg (ezcb_evt_head s) = ezcb_evt_tail s \<longleftrightarrow>
        (unat (ezcb_evt_head s) + 1) mod ring_size cfg = unat (ezcb_evt_tail s)"
    by (simp add: word_unat_eq_iff unat_evt_next [OF n h])
  also have "\<dots> \<longleftrightarrow> evt_pending_count cfg s = ring_size cfg - 1"
    unfolding evt_pending_count_def by (rule ring_full_iff [OF h t])
  finally show ?thesis .
qed

lemma isr_when_full:
  assumes "queue_ok cfg s" and "evt_pending_count cfg s = ring_size cfg - 1"
  shows "ezcb_trigger_isr cfg t d s = Inr (- 1, s)"
  using assms isr_full_iff [OF assms(1)]
  by (simp add: ezcb_trigger_isr_def queue_ok_def)

lemma isr_when_room:
  fixes t :: string and d :: ptr
  assumes "queue_ok cfg s" and "evt_pending_count cfg s \<noteq> ring_size cfg - 1"
  defines "s' \<equiv> s\<lparr>ezcb_evt_queue := (ezcb_evt_queue s)[unat (ezcb_evt_head s) := \<lparr>evt_trigger = t, evt_data = d\<rparr>],
                    ezcb_evt_head := evt_next cfg (ezcb_evt_head s)\<rparr>"
  shows "ezcb_trigger_isr cfg t d s = Inr (0, s')"
    and "queue_ok cfg s'"
    and "evt_pending cfg s' = evt_pending cfg s @ [\<lparr>evt_trigger = t, evt_data = d\<rparr>]"
proof -
  from assms(1) have n: "0 < EZCB_EVENT_QUEUE_SIZE cfg" and h: "unat (ezcb_evt_head s) < ring_size cfg"
    and tl: "unat (ezcb_evt_tail s) < ring_size cfg"
    and len: "length (ezcb_evt_queue s) = EZCB_EVENT_QUEUE_SIZE cfg" by (simp_all add: queue_ok_def)
  have r: "0 < ring_size cfg" using h by simp
  have hq: "unat (ezcb_evt_head s) < length (ezcb_evt_queue s)" using h len ring_le_size [of cfg] by simp
  show "ezcb_trigger_isr cfg t d s = Inr (0, s')"
    using assms(2) isr_full_iff [OF assms(1)] n hq
    by (simp add: ezcb_trigger_isr_def s'_def Let_def)
  have nh: "unat (evt_next cfg (ezcb_evt_head s)) = (unat (ezcb_evt_head s) + 1) mod ring_size cfg"
    by (rule unat_evt_next [OF n h])
  show "queue_ok cfg s'"
    using assms(1) r by (simp add: queue_ok_def s'_def nh)
  have cnt: "evt_pending_count cfg s' = Suc (evt_pending_count cfg s)"
    using ring_count_push [OF h tl] assms(2)
    by (simp add: evt_pending_count_def s'_def nh)
  have old: "ezcb_evt_queue s' ! ((unat (ezcb_evt_tail s) + i) mod ring_size cfg) =
             ezcb_evt_queue s ! ((unat (ezcb_evt_tail s) + i) mod ring_size cfg)"
    if "i < evt_pending_count cfg s" for i
    using ring_index_before [OF h tl, of i] that
    by (simp add: s'_def evt_pending_count_def)
  have new: "ezcb_evt_queue s' ! ((unat (ezcb_evt_tail s) + evt_pending_count cfg s) mod ring_size cfg) =
             \<lparr>evt_trigger = t, evt_data = d\<rparr>"
    using ring_index_last [OF h tl] hq by (simp add: s'_def evt_pending_count_def)
  have tl': "ezcb_evt_tail s' = ezcb_evt_tail s" by (simp add: s'_def)
  have "evt_pending cfg s' =
        map (\<lambda>i. ezcb_evt_queue s' ! ((unat (ezcb_evt_tail s) + i) mod ring_size cfg)) [0..<evt_pending_count cfg s]
        @ [ezcb_evt_queue s' ! ((unat (ezcb_evt_tail s) + evt_pending_count cfg s) mod ring_size cfg)]"
    by (simp add: evt_pending_def cnt tl')
  also have "map (\<lambda>i. ezcb_evt_queue s' ! ((unat (ezcb_evt_tail s) + i) mod ring_size cfg)) [0..<evt_pending_count cfg s]
        = evt_pending cfg s"
    unfolding evt_pending_def by (rule map_cong) (simp_all add: old)
  finally show "evt_pending cfg s' = evt_pending cfg s @ [\<lparr>evt_trigger = t, evt_data = d\<rparr>]"
    using new by simp
qed

lemma trigger_walk_kept:
  "trigger_walk cb t d xs u = (xs', k, log, u') \<Longrightarrow> length xs' + k = length xs \<and> set xs' \<subseteq> set xs"
proof (induction xs arbitrary: u xs' k log u')
  case Nil
  then show ?case by simp
next
  case (Cons a xs)
  show ?case
  proof (cases "trigger a = t")
    case False
    obtain xs2 k2 log2 u2 where w: "trigger_walk cb t d xs u = (xs2, k2, log2, u2)"
      by (cases "trigger_walk cb t d xs u")
    from Cons.IH [OF w] False w Cons.prems show ?thesis by auto
  next
    case True
    obtain r u1 where cb: "cb (fn a) (ctx a) d u = (r, u1)" by (cases "cb (fn a) (ctx a) d u")
    obtain xs2 k2 log2 u2 where w: "trigger_walk cb t d xs u1 = (xs2, k2, log2, u2)"
      by (cases "trigger_walk cb t d xs u1")
    from Cons.IH [OF w] True cb w Cons.prems show ?thesis
      by (auto split: if_splits)
  qed
qed

lemma length_nth_le_concat: "i < length tbl \<Longrightarrow> length (tbl ! i) \<le> length (concat tbl)"
proof (induction tbl arbitrary: i)
  case Nil
  then show ?case by simp
next
  case (Cons a tbl)
  show ?case
  proof (cases i)
    case 0
    then show ?thesis by simp
  next
    case (Suc j)
    with Cons.prems have "j < length tbl" by simp
    from Cons.IH [OF this] Suc show ?thesis by simp
  qed
qed

lemma registry_ok_evt_tail [simp]: "registry_ok (s\<lparr>ezcb_evt_tail := x\<rparr>) = registry_ok s"
  by (simp add: registry_ok_def cong: option.case_cong)

lemma ezcb_trigger_ok:
  assumes "registry_ok s"
  shows "\<exists>s' log u'. ezcb_trigger cfg cb t d s u = Inr (s', log, u') \<and> registry_ok s'
           \<and> ezcb_evt_queue s' = ezcb_evt_queue s \<and> ezcb_evt_head s' = ezcb_evt_head s
           \<and> ezcb_evt_tail s' = ezcb_evt_tail s"
proof (cases "ezcb_table s")
  case None
  with assms show ?thesis by (simp add: ezcb_trigger_def)
next
  case (Some tbl)
  let ?idx = "unat (ezcb_hash t) mod ezcb_buckets s"
  from assms Some have len: "length tbl = ezcb_buckets s" and pos: "0 < ezcb_buckets s"
    and placed: "placed_from (ezcb_buckets s) 0 tbl" and c: "ezcb_count s = length (concat tbl)"
    by (simp_all add: registry_ok_def)
  have idx: "?idx < length tbl" using len pos by simp
  obtain ch k log u' where w: "trigger_walk cb t d (tbl ! ?idx) u = (ch, k, log, u')"
    by (cases "trigger_walk cb t d (tbl ! ?idx) u")
  from trigger_walk_kept [OF w] have kept: "length ch + k = length (tbl ! ?idx)" "set ch \<subseteq> set (tbl ! ?idx)"
    by simp_all
  have "length (tbl ! ?idx) \<le> length (concat tbl)"
    using idx by (rule length_nth_le_concat)
  with kept(1) c have kc: "k \<le> ezcb_count s" by simp
  have "\<forall>n\<in>set ch. bucket_of (ezcb_buckets s) n = ?idx"
    using kept(2) placed idx by (auto simp: placed_from_iff)
  moreover have "(ezcb_count s - k) + length (tbl ! ?idx) = ezcb_count s + length ch"
    using kept(1) kc by simp
  ultimately have "registry_ok (s\<lparr>ezcb_table := Some (tbl[?idx := ch]), ezcb_count := ezcb_count s - k\<rparr>)"
    by (rule registry_ok_update_chain [OF assms Some idx])
  then have "registry_ok (released cfg k (s\<lparr>ezcb_table := Some (tbl[?idx := ch])\<rparr>))"
    by (simp add: released_def registry_ok_def)
  moreover have "ezcb_trigger cfg cb t d s u = Inr (released cfg k (s\<lparr>ezcb_table := Some (tbl[?idx := ch])\<rparr>), log, u')"
    using ezcb_trigger_active [OF Some pos refl idx, of cfg cb d u] w by simp
  ultimately show ?thesis by (simp add: released_def)
qed

lemma ezcb_trigger_tail:
  "ezcb_trigger cfg cb t d (s\<lparr>ezcb_evt_tail := x\<rparr>) u =
     (case ezcb_trigger cfg cb t d s u of
        Inl e \<Rightarrow> Inl e
      | Inr (s', log, u') \<Rightarrow> Inr (s'\<lparr>ezcb_evt_tail := x\<rparr>, log, u'))"
  by (simp add: ezcb_trigger_def released_def Let_def split: option.splits prod.splits)

lemma evt_pending_pop:
  assumes "queue_ok cfg s" and "ezcb_evt_tail s \<noteq> ezcb_evt_head s"
  defines "s1 \<equiv> s\<lparr>ezcb_evt_tail := evt_next cfg (ezcb_evt_tail s)\<rparr>"
  shows "queue_ok cfg s1"
    and "evt_pending cfg s = ezcb_evt_queue s ! unat (ezcb_evt_tail s) # evt_pending cfg s1"
    and "unat (ezcb_evt_tail s) < length (ezcb_evt_queue s)"
proof -
  from assms(1) have n: "0 < EZCB_EVENT_QUEUE_SIZE cfg" and h: "unat (ezcb_evt_head s) < ring_size cfg"
    and tl: "unat (ezcb_evt_tail s) < ring_size cfg"
    and len: "length (ezcb_evt_queue s) = EZCB_EVENT_QUEUE_SIZE cfg" by (simp_all add: queue_ok_def)
  have r: "0 < ring_size cfg" using h by simp
  show "unat (ezcb_evt_tail s) < length (ezcb_evt_queue s)" using tl len ring_le_size [of cfg] by simp
  have nt: "unat (evt_next cfg (ezcb_evt_tail s)) = (unat (ezcb_evt_tail s) + 1) mod ring_size cfg"
    by (rule unat_evt_next [OF n tl])
  show "queue_ok cfg s1" using assms(1) r by (simp add: queue_ok_def s1_def nt)
  have ne: "unat (ezcb_evt_head s) \<noteq> unat (ezcb_evt_tail s)"
    using assms(2) by (simp add: word_unat_eq_iff)
  have cnt: "evt_pending_count cfg s = Suc (evt_pending_count cfg s1)"
    using ring_count_pop [OF h tl ne] by (simp add: evt_pending_count_def s1_def nt)
  have "evt_pending cfg s =
        map (\<lambda>i. ezcb_evt_queue s ! ((unat (ezcb_evt_tail s) + i) mod ring_size cfg)) (0 # map Suc [0..<evt_pending_count cfg s1])"
    unfolding evt_pending_def cnt by (simp only: upt_conv_Cons zero_less_Suc map_Suc_upt [symmetric])
  also have "\<dots> = ezcb_evt_queue s ! unat (ezcb_evt_tail s) #
        map (\<lambda>i. ezcb_evt_queue s ! ((unat (ezcb_evt_tail s) + Suc i) mod ring_size cfg)) [0..<evt_pending_count cfg s1]"
    using tl by (simp add: comp_def)
  also have "map (\<lambda>i. ezcb_evt_queue s ! ((unat (ezcb_evt_tail s) + Suc i) mod ring_size cfg)) [0..<evt_pending_count cfg s1]
        = evt_pending cfg s1"
  proof -
    have "((unat (ezcb_evt_tail s) + 1) mod ring_size cfg + i) mod ring_size cfg
          = (unat (ezcb_evt_tail s) + Suc i) mod ring_size cfg" for i
      by (simp add: mod_add_left_eq)
    then show ?thesis by (simp add: evt_pending_def s1_def nt)
  qed
  finally show "evt_pending cfg s = ezcb_evt_queue s ! unat (ezcb_evt_tail s) # evt_pending cfg s1" .
qed

lemma evt_pending_fields:
  assumes "ezcb_evt_queue s' = ezcb_evt_queue s" and "ezcb_evt_head s' = ezcb_evt_head s"
    and "ezcb_evt_tail s' = ezcb_evt_tail s"
  shows "evt_pending cfg s' = evt_pending cfg s" and "queue_ok cfg s' = queue_ok cfg s"
    and "evt_pending_count cfg s' = evt_pending_count cfg s"
  using assms by (simp_all add: evt_pending_def queue_ok_def evt_pending_count_def)

lemma dispatch_drains:
  assumes "queue_ok cfg s" and "registry_ok s"
  shows "\<exists>s' calls' u'.
           ezcb_dispatch cfg cb s calls u = Some (Inr (s', calls @ calls', u'))
           \<and> trigger_each cfg cb (evt_pending cfg s) (s\<lparr>ezcb_evt_tail := ezcb_evt_head s\<rparr>) u = Inr (s', calls', u')
           \<and> map fst calls' = evt_pending cfg s
           \<and> ezcb_evt_tail s' = ezcb_evt_head s \<and> ezcb_evt_head s' = ezcb_evt_head s
           \<and> ezcb_evt_queue s' = ezcb_evt_queue s \<and> registry_ok s'"
  using assms
proof (induction "evt_pending_count cfg s" arbitrary: s calls u)
  case 0
  then have "unat (ezcb_evt_head s) = unat (ezcb_evt_tail s)"
    using ring_count_zero [of "unat (ezcb_evt_head s)" "ring_size cfg" "unat (ezcb_evt_tail s)"]
    by (simp add: evt_pending_count_def queue_ok_def)
  then have eq: "ezcb_evt_tail s = ezcb_evt_head s" by (simp add: word_unat_eq_iff)
  then have "s\<lparr>ezcb_evt_tail := ezcb_evt_head s\<rparr> = s" by (cases s) simp
  moreover have "evt_pending cfg s = []" using 0(1) [symmetric] by (simp add: evt_pending_def)
  moreover have "ezcb_dispatch cfg cb s calls u = Some (Inr (s, calls, u))"
    using eq by (subst ezcb_dispatch.simps) simp
  ultimately show ?case using eq "0.prems" by simp
next
  case (Suc n)
  have ne: "ezcb_evt_tail s \<noteq> ezcb_evt_head s"
  proof
    assume "ezcb_evt_tail s = ezcb_evt_head s"
    then have "evt_pending_count cfg s = 0"
      using Suc.prems(1) ring_count_zero [of "unat (ezcb_evt_head s)" "ring_size cfg" "unat (ezcb_evt_tail s)"]
      by (simp add: evt_pending_count_def queue_ok_def)
    with Suc(2) show False by simp
  qed
  let ?e = "ezcb_evt_queue s ! unat (ezcb_evt_tail s)"
  let ?s1 = "s\<lparr>ezcb_evt_tail := evt_next cfg (ezcb_evt_tail s)\<rparr>"
  note pop = evt_pending_pop [OF Suc.prems(1) ne]
  have ok1: "registry_ok ?s1" using Suc.prems(2) by simp
  obtain s2 log u2 where t0: "ezcb_trigger cfg cb (evt_trigger ?e) (evt_data ?e) s u = Inr (s2, log, u2)"
    and ok2: "registry_ok s2" and q2: "ezcb_evt_queue s2 = ezcb_evt_queue s"
    and h2: "ezcb_evt_head s2 = ezcb_evt_head s" and tl2: "ezcb_evt_tail s2 = ezcb_evt_tail s"
    using ezcb_trigger_ok [OF Suc.prems(2), of cfg cb "evt_trigger ?e" "evt_data ?e" u] by blast
  let ?s3 = "s2\<lparr>ezcb_evt_tail := evt_next cfg (ezcb_evt_tail s)\<rparr>"
  have t1: "ezcb_trigger cfg cb (evt_trigger ?e) (evt_data ?e) ?s1 u = Inr (?s3, log, u2)"
    by (simp add: ezcb_trigger_tail t0)
  have th: "ezcb_trigger cfg cb (evt_trigger ?e) (evt_data ?e) (s\<lparr>ezcb_evt_tail := ezcb_evt_head s\<rparr>) u
            = Inr (s2\<lparr>ezcb_evt_tail := ezcb_evt_head s\<rparr>, log, u2)"
    by (simp add: ezcb_trigger_tail t0)
  have ok3: "registry_ok ?s3" using ok2 by simp
  have f3: "ezcb_evt_queue ?s3 = ezcb_evt_queue ?s1" "ezcb_evt_head ?s3 = ezcb_evt_head ?s1"
    "ezcb_evt_tail ?s3 = ezcb_evt_tail ?s1" using q2 h2 by simp_all
  have q3: "queue_ok cfg ?s3" using pop(1) evt_pending_fields(2) [OF f3] by simp
  have p3: "evt_pending cfg ?s3 = evt_pending cfg ?s1" using evt_pending_fields(1) [OF f3] .
  have c3: "n = evt_pending_count cfg ?s3"
  proof -
    have "Suc n = Suc (length (evt_pending cfg ?s1))"
      using Suc(2) pop(2) by (simp flip: length_evt_pending)
    then show ?thesis using evt_pending_fields(3) [OF f3] by (simp add: length_evt_pending)
  qed
  from Suc(1) [OF c3 q3 ok3, of "calls @ [(?e, log)]" u2]
  obtain s' calls' u' where
    d: "ezcb_dispatch cfg cb ?s3 (calls @ [(?e, log)]) u2 = Some (Inr (s', (calls @ [(?e, log)]) @ calls', u'))"
    and te: "trigger_each cfg cb (evt_pending cfg ?s3) (?s3\<lparr>ezcb_evt_tail := ezcb_evt_head ?s3\<rparr>) u2 = Inr (s', calls', u')"
    and mp: "map fst calls' = evt_pending cfg ?s3"
    and fin: "ezcb_evt_tail s' = ezcb_evt_head ?s3" "ezcb_evt_head s' = ezcb_evt_head ?s3"
      "ezcb_evt_queue s' = ezcb_evt_queue ?s3" "registry_ok s'"
    by blast
  have s3h: "?s3\<lparr>ezcb_evt_tail := ezcb_evt_head ?s3\<rparr> = s2\<lparr>ezcb_evt_tail := ezcb_evt_head s\<rparr>"
    using h2 by simp
  have n0: "EZCB_EVENT_QUEUE_SIZE cfg \<noteq> 0" using Suc.prems(1) by (simp add: queue_ok_def)
  have "ezcb_dispatch cfg cb s calls u = ezcb_dispatch cfg cb ?s3 (calls @ [(?e, log)]) u2"
    using ne pop(3) n0 t1 by (subst ezcb_dispatch.simps) simp
  with d have "ezcb_dispatch cfg cb s calls u = Some (Inr (s', calls @ ((?e, log) # calls'), u'))" by simp
  moreover have "trigger_each cfg cb (evt_pending cfg s) (s\<lparr>ezcb_evt_tail := ezcb_evt_head s\<rparr>) u
                 = Inr (s', (?e, log) # calls', u')"
    using pop(2) th te p3 s3h by simp
  moreover have "map fst ((?e, log) # calls') = evt_pending cfg s"
    using pop(2) mp p3 by simp
  ultimately show ?case using fin h2 q2 by auto
qed

lemma wide_step:
  assumes "k < 255"
  shows "ezcb_trigger_isr wide_queue ''e'' 7 (wide_filled k) = Inr (0, wide_filled (Suc k))"
proof -
  have u: "unat (of_nat k :: 8 word) = k" using assms by (simp add: unat_of_nat)
  have n: "evt_next wide_queue (of_nat k) = of_nat (Suc k)"
    using assms by (simp add: evt_next_def wide_queue_def u)
  have "unat (of_nat (Suc k) :: 8 word) = Suc k"
    using assms unat_of_nat [of "Suc k", where 'a = 8] by simp
  then have nz: "(of_nat (Suc k) :: 8 word) \<noteq> 0"
    by (metis unat_0 nat.distinct(1))
  have l: "(replicate k \<lparr>evt_trigger = ''e'', evt_data = 7\<rparr>
              @ replicate (300 - k) \<lparr>evt_trigger = [], evt_data = 0\<rparr>)[k := \<lparr>evt_trigger = ''e'', evt_data = 7\<rparr>]
           = replicate (Suc k) \<lparr>evt_trigger = ''e'', evt_data = 7\<rparr>
              @ replicate (300 - Suc k) \<lparr>evt_trigger = [], evt_data = 0\<rparr>"
  proof -
    from assms obtain j where j: "300 - k = Suc j" "300 - Suc k = j" by (cases "300 - k") auto
    show ?thesis unfolding j by (simp add: list_update_append replicate_append_same)
  qed
  show ?thesis
    using assms nz l
    by (simp add: ezcb_trigger_isr_def wide_filled_def ezcb_startup_def n u Let_def del: of_nat_Suc replicate_Suc)
       (simp add: wide_queue_def)
qed

lemma wide_fill:
  "k + j \<le> 255 \<Longrightarrow>
     isr_calls wide_queue (replicate j (''e'', 7)) (wide_filled k) = Inr (replicate j 0, wide_filled (k + j))"
proof (induction j arbitrary: k)
  case 0
  show ?case by simp
next
  case (Suc j)
  then have "k < 255" "Suc k + j \<le> 255" by simp_all
  from wide_step [OF this(1)] Suc.IH [OF this(2)] show ?case by simp
qed

text \<open>
  The claim C9 as stated fails for a queue of 300 slots: after 255 events, all accepted,
  the next one is refused, with 299 slots promised.
\<close>

theorem wide_queue_full_at_255:
  "isr_calls wide_queue (replicate 255 (''e'', 7)) (ezcb_startup wide_queue) = Inr (replicate 255 0, wide_filled 255)
   \<and> ezcb_trigger_isr wide_queue ''e'' 7 (wide_filled 255) = Inr (- 1, wide_filled 255)
   \<and> 255 < EZCB_EVENT_QUEUE_SIZE wide_queue - 1"
proof -
  have "wide_filled 0 = ezcb_startup wide_queue"
    by (simp add: wide_filled_def ezcb_startup_def wide_queue_def)
  with wide_fill [of 0 255] have "isr_calls wide_queue (replicate 255 (''e'', 7)) (ezcb_startup wide_queue)
      = Inr (replicate 255 0, wide_filled 255)" by simp
  moreover have "ezcb_trigger_isr wide_queue ''e'' 7 (wide_filled 255) = Inr (- 1, wide_filled 255)"
    by (simp add: ezcb_trigger_isr_def evt_next_def wide_filled_def ezcb_startup_def wide_queue_def)
  moreover have "255 < EZCB_EVENT_QUEUE_SIZE wide_queue - 1" by (simp add: wide_queue_def)
  ultimately show ?thesis by simp
qed

text \<open>
  Claim C4 (deferred queue). The queue never holds more than its capacity. Below
  capacity, \<open>ezcb_trigger_isr\<close> returns 0, writes the event into the slot at the producer
  index and advances that index only: the pending events are the former ones followed by
  the new one. At capacity it returns -1 and changes nothing. \<open>ezcb_dispatch\<close> returns,
  leaves the queue empty, and has called trigger once for each pending event, oldest first.
\<close>

theorem deferred_queue_fifo:
  fixes t :: string and d :: ptr
  assumes "queue_ok cfg s" and "registry_ok s"
  defines "pushed \<equiv> s\<lparr>ezcb_evt_queue := (ezcb_evt_queue s)[unat (ezcb_evt_head s) := \<lparr>evt_trigger = t, evt_data = d\<rparr>],
                        ezcb_evt_head := evt_next cfg (ezcb_evt_head s)\<rparr>"
  shows "length (evt_pending cfg s) \<le> ring_size cfg - 1
       \<and> (length (evt_pending cfg s) < ring_size cfg - 1 \<longrightarrow>
            ezcb_trigger_isr cfg t d s = Inr (0, pushed)
            \<and> evt_pending cfg pushed = evt_pending cfg s @ [\<lparr>evt_trigger = t, evt_data = d\<rparr>]
            \<and> queue_ok cfg pushed)
       \<and> (length (evt_pending cfg s) = ring_size cfg - 1 \<longrightarrow> ezcb_trigger_isr cfg t d s = Inr (- 1, s))
       \<and> (\<exists>s' calls u'.
             ezcb_dispatch cfg cb s [] u = Some (Inr (s', calls, u'))
             \<and> trigger_each cfg cb (evt_pending cfg s) (s\<lparr>ezcb_evt_tail := ezcb_evt_head s\<rparr>) u = Inr (s', calls, u')
             \<and> map fst calls = evt_pending cfg s
             \<and> ezcb_evt_tail s' = ezcb_evt_head s' \<and> evt_pending cfg s' = [])"
proof -
  have a: "length (evt_pending cfg s) \<le> ring_size cfg - 1"
    using evt_pending_count_less [OF assms(1)] by (simp add: length_evt_pending)
  have b: "ezcb_trigger_isr cfg t d s = Inr (0, pushed)
            \<and> evt_pending cfg pushed = evt_pending cfg s @ [\<lparr>evt_trigger = t, evt_data = d\<rparr>]
            \<and> queue_ok cfg pushed"
    if "length (evt_pending cfg s) < ring_size cfg - 1"
  proof -
    from that have "evt_pending_count cfg s \<noteq> ring_size cfg - 1" by (simp add: length_evt_pending)
    from isr_when_room [OF assms(1) this, of t d] show ?thesis by (simp add: pushed_def)
  qed
  have c: "ezcb_trigger_isr cfg t d s = Inr (- 1, s)" if "length (evt_pending cfg s) = ring_size cfg - 1"
    using isr_when_full [OF assms(1)] that by (simp add: length_evt_pending)
  obtain s' calls u' where
    d1: "ezcb_dispatch cfg cb s [] u = Some (Inr (s', [] @ calls, u'))"
    and d2: "trigger_each cfg cb (evt_pending cfg s) (s\<lparr>ezcb_evt_tail := ezcb_evt_head s\<rparr>) u = Inr (s', calls, u')"
    and d3: "map fst calls = evt_pending cfg s"
    and d4: "ezcb_evt_tail s' = ezcb_evt_head s" "ezcb_evt_head s' = ezcb_evt_head s"
    using dispatch_drains [OF assms(1,2), of cb "[]" u] by blast
  have "evt_pending_count cfg s' = 0"
    using d4 assms(1) by (simp add: evt_pending_count_def queue_ok_def)
  then have d5: "evt_pending cfg s' = []" by (simp add: evt_pending_def)
  from a b c d1 d2 d3 d4 d5 show ?thesis by auto
qed

text \<open>
  Claim C9, as amended (capacity). The queue is full, and \<open>ezcb_trigger_isr\<close> returns -1,
  exactly when the number of pending events is one less than the ring size: one less than
  \<open>EZCB_EVENT_QUEUE_SIZE\<close> when that is at most 256, and 255 for every larger size, since
  the indices are 8 bits wide.
\<close>

theorem queue_capacity_ring:
  assumes "queue_ok cfg s"
  shows "length (evt_pending cfg s) \<le> ring_size cfg - 1
       \<and> (ezcb_trigger_isr cfg t d s = Inr (- 1, s) \<longleftrightarrow> length (evt_pending cfg s) = ring_size cfg - 1)
       \<and> (EZCB_EVENT_QUEUE_SIZE cfg \<le> 256 \<longrightarrow> ring_size cfg - 1 = EZCB_EVENT_QUEUE_SIZE cfg - 1)
       \<and> (256 < EZCB_EVENT_QUEUE_SIZE cfg \<longrightarrow> ring_size cfg - 1 = 255)"
proof -
  have a: "length (evt_pending cfg s) \<le> ring_size cfg - 1"
    using evt_pending_count_less [OF assms(1)] by (simp add: length_evt_pending)
  have b: "ezcb_trigger_isr cfg t d s = Inr (- 1, s) \<longleftrightarrow> length (evt_pending cfg s) = ring_size cfg - 1"
  proof (cases "evt_pending_count cfg s = ring_size cfg - 1")
    case True
    with isr_when_full [OF assms this, of t d] show ?thesis by (simp add: length_evt_pending)
  next
    case False
    with isr_when_room(1) [OF assms this, of t d] show ?thesis by (simp add: length_evt_pending)
  qed
  from a b show ?thesis by (simp add: ring_size_def)
qed

lemmas queue_defs = queued_def evt_a_def evt_b_def evt_c_def evt_blank_def node_c_def

lemma upt3: "[0..<3] = [0, 1, 2]" "[0..<2] = [0, 1]"
  by (simp_all add: upt_rec)

theorem deferred_queue_fifo_witness:
  "evt_pending one_bucket (queued [node_c, node_b, node_a] [evt_c, evt_blank, evt_a, evt_b] 1 2) = [evt_a, evt_b, evt_c]
   \<and> ezcb_trigger_isr one_bucket ''a'' 10 (queued [node_c, node_b, node_a] [evt_c, evt_blank, evt_a, evt_b] 1 2)
       = Inr (- 1, queued [node_c, node_b, node_a] [evt_c, evt_blank, evt_a, evt_b] 1 2)
   \<and> ezcb_trigger_isr one_bucket ''c'' 30 (queued [node_c, node_b, node_a] [evt_blank, evt_blank, evt_a, evt_b] 0 2)
       = Inr (0, queued [node_c, node_b, node_a] [evt_c, evt_blank, evt_a, evt_b] 1 2)
   \<and> ezcb_dispatch one_bucket stop_at_1 (queued [node_c, node_b, node_a] [evt_c, evt_blank, evt_a, evt_b] 1 2) [] 0
       = Some (Inr (queued [node_b, node_a] [evt_c, evt_blank, evt_a, evt_b] 1 1,
                    [(evt_a, [(node_a, EZCB_STOP)]), (evt_b, [(node_b, EZCB_CONTINUE)]),
                     (evt_c, [(node_c, EZCB_CONTINUE)])], 3))"
proof -
  let ?s = "queued [node_c, node_b, node_a] [evt_c, evt_blank, evt_a, evt_b] 1 2"
  let ?before = "queued [node_c, node_b, node_a] [evt_blank, evt_blank, evt_a, evt_b] 0 2"
  have q: "queue_ok one_bucket ?s" "queue_ok one_bucket ?before"
    by (simp_all add: queue_ok_def ring_size_def queue_defs demo_defs)
  have r: "registry_ok ?s" "registry_ok ?before"
    by (simp_all add: registry_ok_def bucket_of_def queue_defs demo_defs)
  have p: "evt_pending one_bucket ?s = [evt_a, evt_b, evt_c]"
    by (simp add: evt_pending_def evt_pending_count_def ring_size_def queued_def demo_defs upt3)
  have p0: "evt_pending one_bucket ?before = [evt_a, evt_b]"
    by (simp add: evt_pending_def evt_pending_count_def ring_size_def queued_def demo_defs upt3)
  have rs: "ring_size one_bucket = 4" by (simp add: ring_size_def one_bucket_def)
  note w = deferred_queue_fifo [OF q(1) r(1), of "''a''" 10 stop_at_1 0]
  note w0 = deferred_queue_fifo [OF q(2) r(2), of "''c''" 30 stop_at_1 0]
  have full: "ezcb_trigger_isr one_bucket ''a'' 10 ?s = Inr (- 1, ?s)"
    using w p rs by simp
  have room: "ezcb_trigger_isr one_bucket ''c'' 30 ?before = Inr (0, ?s)"
    using w0 p0 rs by (simp add: queue_defs demo_defs evt_next_def)
  have te: "trigger_each one_bucket stop_at_1 [evt_a, evt_b, evt_c] (?s\<lparr>ezcb_evt_tail := ezcb_evt_head ?s\<rparr>) 0
        = Inr (queued [node_b, node_a] [evt_c, evt_blank, evt_a, evt_b] 1 1,
               [(evt_a, [(node_a, EZCB_STOP)]), (evt_b, [(node_b, EZCB_CONTINUE)]),
                (evt_c, [(node_c, EZCB_CONTINUE)])], 3)"
    by (simp add: ezcb_trigger_def queue_defs demo_defs)
  have "ezcb_dispatch one_bucket stop_at_1 ?s [] 0
       = Some (Inr (queued [node_b, node_a] [evt_c, evt_blank, evt_a, evt_b] 1 1,
                    [(evt_a, [(node_a, EZCB_STOP)]), (evt_b, [(node_b, EZCB_CONTINUE)]),
                     (evt_c, [(node_c, EZCB_CONTINUE)])], 3))"
    using w te unfolding p by auto
  with p full room show ?thesis by simp
qed

theorem queue_capacity_ring_witness:
  "ezcb_trigger_isr one_bucket ''a'' 10 (queued [] [evt_c, evt_blank, evt_a, evt_b] 1 2)
       = Inr (- 1, queued [] [evt_c, evt_blank, evt_a, evt_b] 1 2)
   \<and> length (evt_pending one_bucket (queued [] [evt_c, evt_blank, evt_a, evt_b] 1 2)) = EZCB_EVENT_QUEUE_SIZE one_bucket - 1
   \<and> EZCB_EVENT_QUEUE_SIZE one_bucket = 4"
proof -
  let ?s = "queued [] [evt_c, evt_blank, evt_a, evt_b] 1 2"
  have q: "queue_ok one_bucket ?s"
    by (simp add: queue_ok_def ring_size_def queue_defs demo_defs)
  have p: "evt_pending one_bucket ?s = [evt_a, evt_b, evt_c]"
    by (simp add: evt_pending_def evt_pending_count_def ring_size_def queued_def demo_defs upt3)
  have n: "EZCB_EVENT_QUEUE_SIZE one_bucket = 4" by (simp add: one_bucket_def)
  from queue_capacity_ring [OF q, of "''a''" 10] p n show ?thesis by simp
qed

subsection \<open>Repeated registration\<close>

lemma registry_ok_free_list [simp]: "registry_ok (s\<lparr>ezcb_free_list := x\<rparr>) = registry_ok s"
  by (simp add: registry_ok_def cong: option.case_cong)

lemma all_nodes_free_list [simp]: "all_nodes (s\<lparr>ezcb_free_list := x\<rparr>) = all_nodes s"
  by (simp add: all_nodes_def)

lemma register_link_free_list:
  "register_link t p f c oflag s = Inr (rc, s') \<Longrightarrow> ezcb_free_list s' = ezcb_free_list s"
  by (auto simp: register_link_def Let_def split: if_splits option.splits)

lemma register_succeeds:
  fixes cfg :: ezcb_config and h :: heap and s :: ezcb_state
    and t :: string and p :: "8 word" and f c :: ptr and oflag :: bool
  defines "s1 \<equiv> (if ezcb_table s = None then ezcb_init cfg h s else s)"
  defines "node \<equiv> \<lparr>trigger = t, priority = p, once = oflag, fn = f, ctx = c\<rparr>"
  assumes "registry_ok s"
    and "if EZCB_NO_MALLOC cfg
         then 0 < EZCB_MAX_BUCKETS cfg \<and> length t < EZCB_MAX_TRIGGER_LENGTH cfg \<and> 0 < ezcb_free_list s1
         else calloc_ok h \<and> malloc_ok h"
  shows "\<exists>s'. ezcb_register_internal cfg h t p f c oflag s = Inr (0, s') \<and> registry_ok s'
           \<and> ezcb_table s' \<noteq> None
           \<and> mset (all_nodes s') = add_mset node (mset (all_nodes s))
           \<and> (EZCB_NO_MALLOC cfg \<longrightarrow> ezcb_free_list s' = ezcb_free_list s1 - 1)"
proof -
  have bk: "EZCB_NO_MALLOC cfg \<longrightarrow> 0 < EZCB_MAX_BUCKETS cfg" using assms(4) by (simp split: if_splits)
  have ok1: "registry_ok s1" and n1: "all_nodes s1 = all_nodes s"
    using assms(3) ezcb_init_ok [of s cfg h] bk by (auto simp: s1_def all_nodes_def)
  have "ezcb_table s1 \<noteq> None"
    using assms(4) by (auto simp: s1_def ezcb_init_def split: if_splits)
  then obtain tbl1 where t1: "ezcb_table s1 = Some tbl1" by auto
  have "\<exists>s2. register_precheck cfg h t s1 = Inr (0, s2) \<and> registry_ok s2 \<and> ezcb_table s2 \<noteq> None
          \<and> mset (all_nodes s2) = mset (all_nodes s1) \<and> ezcb_free_list s2 = ezcb_free_list s1"
  proof (cases "EZCB_NO_MALLOC cfg")
    case True
    with assms(4) ok1 t1 show ?thesis by (simp add: register_precheck_def)
  next
    case False
    with assms(4) have co: "calloc_ok h" by simp
    show ?thesis
    proof (cases "ezcb_buckets s1 * 3 \<le> ezcb_count s1 * 4")
      case True
      with False co resize_grown_ok(1) [OF ok1 t1, of h] resize_grown_ok(2,3) [OF ok1 t1] show ?thesis
        by (simp add: register_precheck_def)
    next
      case nogrow: False
      with False ok1 t1 show ?thesis by (simp add: register_precheck_def)
    qed
  qed
  then obtain s2 where pre: "register_precheck cfg h t s1 = Inr (0, s2)" and ok2: "registry_ok s2"
    and t2: "ezcb_table s2 \<noteq> None" and n2: "mset (all_nodes s2) = mset (all_nodes s1)"
    and f2: "ezcb_free_list s2 = ezcb_free_list s1" by blast
  define s3 where "s3 = (if EZCB_NO_MALLOC cfg then s2\<lparr>ezcb_free_list := ezcb_free_list s2 - 1\<rparr> else s2)"
  have al: "ezcb_node_alloc cfg h s2 = Some s3"
    using assms(4) f2 by (auto simp: ezcb_node_alloc_def s3_def split: if_splits)
  have ok3: "registry_ok s3" and n3: "all_nodes s3 = all_nodes s2" using ok2 by (simp_all add: s3_def)
  from t2 obtain tbl3 where t3: "ezcb_table s3 = Some tbl3" by (auto simp: s3_def)
  from register_link_ok [OF ok3 t3, where t = t and p = p and f = f and c = c and oflag = oflag]
  obtain s' where l: "register_link t p f c oflag s3 = Inr (0, s')" and ok': "registry_ok s'"
    and n': "mset (all_nodes s') = add_mset node (mset (all_nodes s3))"
    and t': "ezcb_table s' \<noteq> None"
    by (auto simp: node_def)
  have "ezcb_register_internal cfg h t p f c oflag s = Inr (0, s')"
    using pre al l by (simp add: ezcb_register_internal_def s1_def [symmetric])
  moreover have "EZCB_NO_MALLOC cfg \<longrightarrow> ezcb_free_list s' = ezcb_free_list s1 - 1"
    using register_link_free_list [OF l] f2 by (simp add: s3_def)
  ultimately show ?thesis using ok' t' n' n3 n2 n1 by auto
qed

lemma register_calls_same:
  fixes cfg :: ezcb_config and h :: heap and s :: ezcb_state
    and t :: string and p :: "8 word" and f c :: ptr and oflag :: bool
  assumes "registry_ok s"
    and "if EZCB_NO_MALLOC cfg
         then 0 < EZCB_MAX_BUCKETS cfg \<and> length t < EZCB_MAX_TRIGGER_LENGTH cfg
              \<and> k \<le> ezcb_free_list (if ezcb_table s = None then ezcb_init cfg h s else s)
         else calloc_ok h \<and> malloc_ok h"
  shows "\<exists>s'. register_calls cfg h (replicate k (t, p, f, c, oflag)) s = Inr (replicate k 0, s')
           \<and> registry_ok s'
           \<and> mset (all_nodes s') =
               mset (all_nodes s) + replicate_mset k \<lparr>trigger = t, priority = p, once = oflag, fn = f, ctx = c\<rparr>"
  using assms
proof (induction k arbitrary: s)
  case 0
  then show ?case by simp
next
  case (Suc k)
  let ?s1 = "if ezcb_table s = None then ezcb_init cfg h s else s"
  have hyp1: "if EZCB_NO_MALLOC cfg
         then 0 < EZCB_MAX_BUCKETS cfg \<and> length t < EZCB_MAX_TRIGGER_LENGTH cfg \<and> 0 < ezcb_free_list ?s1
         else calloc_ok h \<and> malloc_ok h"
    using Suc.prems(2) by (auto split: if_splits)
  from register_succeeds [OF Suc.prems(1) hyp1, where p = p and f = f and c = c and oflag = oflag]
  obtain s' where r: "ezcb_register_internal cfg h t p f c oflag s = Inr (0, s')" and ok': "registry_ok s'"
    and t': "ezcb_table s' \<noteq> None"
    and n': "mset (all_nodes s') = add_mset \<lparr>trigger = t, priority = p, once = oflag, fn = f, ctx = c\<rparr> (mset (all_nodes s))"
    and fl: "EZCB_NO_MALLOC cfg \<longrightarrow> ezcb_free_list s' = ezcb_free_list ?s1 - 1"
    by blast
  have hyp2: "if EZCB_NO_MALLOC cfg
         then 0 < EZCB_MAX_BUCKETS cfg \<and> length t < EZCB_MAX_TRIGGER_LENGTH cfg
              \<and> k \<le> ezcb_free_list (if ezcb_table s' = None then ezcb_init cfg h s' else s')
         else calloc_ok h \<and> malloc_ok h"
    using Suc.prems(2) t' fl by (auto split: if_splits)
  from Suc.IH [OF ok' hyp2]
  obtain s'' where rs: "register_calls cfg h (replicate k (t, p, f, c, oflag)) s' = Inr (replicate k 0, s'')"
    and ok'': "registry_ok s''"
    and n'': "mset (all_nodes s'') =
               mset (all_nodes s') + replicate_mset k \<lparr>trigger = t, priority = p, once = oflag, fn = f, ctx = c\<rparr>"
    by blast
  have "register_calls cfg h (replicate (Suc k) (t, p, f, c, oflag)) s = Inr (replicate (Suc k) 0, s'')"
    using r rs by simp
  with ok'' n'' n' show ?case by simp
qed

lemma trigger_walk_all_continue:
  assumes "\<forall>n\<in>set xs. trigger n = t \<longrightarrow> (\<forall>v. fst (cb (fn n) (ctx n) d v) = EZCB_CONTINUE)"
  shows "\<exists>xs' k u'. trigger_walk cb t d xs u =
           (xs', k, map (\<lambda>n. (n, EZCB_CONTINUE)) (filter (\<lambda>n. trigger n = t) xs), u')"
  using assms
proof (induction xs arbitrary: u)
  case Nil
  show ?case by simp
next
  case (Cons a xs)
  then have ih: "\<exists>xs' k u'. trigger_walk cb t d xs v =
           (xs', k, map (\<lambda>n. (n, EZCB_CONTINUE)) (filter (\<lambda>n. trigger n = t) xs), u')" for v
    by simp
  show ?case
  proof (cases "trigger a = t")
    case False
    with ih [of u] show ?thesis by auto
  next
    case True
    obtain r u1 where cb: "cb (fn a) (ctx a) d u = (r, u1)" by (cases "cb (fn a) (ctx a) d u")
    with Cons.prems True have r: "r = EZCB_CONTINUE" by (metis fst_conv list.set_intros(1))
    from ih [of u1] True cb r show ?thesis by auto
  qed
qed

lemma count_bucket:
  assumes "registry_ok s" and "ezcb_table s = Some tbl"
  shows "length (filter (\<lambda>n. n = node) (tbl ! (unat (ezcb_hash (trigger node)) mod ezcb_buckets s)))
           = count (mset (all_nodes s)) node"
proof -
  let ?idx = "unat (ezcb_hash (trigger node)) mod ezcb_buckets s"
  from assms have len: "length tbl = ezcb_buckets s" and pos: "0 < ezcb_buckets s"
    and placed: "placed_from (ezcb_buckets s) 0 tbl"
    by (simp_all add: registry_ok_def)
  have idx: "?idx < length tbl" using len pos by simp
  have "\<forall>j<length tbl. j \<noteq> ?idx \<longrightarrow> (\<forall>n\<in>set (tbl ! j). \<not> n = node)"
    using placed by (auto simp: placed_from_iff bucket_of_def)
  from filter_concat_one_bucket(2) [OF idx this]
  have "length (filter (\<lambda>n. n = node) (concat tbl)) = length (filter (\<lambda>n. n = node) (tbl ! ?idx))" .
  moreover have "count (mset xs) node = length (filter (\<lambda>n. n = node) xs)" for xs
    by (induction xs) auto
  ultimately show ?thesis using assms(2) by (simp add: all_nodes_def)
qed

text \<open>
  Claim C10 (no deduplication). With the resources they need, \<open>k\<close> register calls with the
  same arguments all return 0 and add \<open>k\<close> registrations equal to that node; a trigger call
  in which every callback of that trigger continues invokes the node's callback once for
  each of them: \<open>k\<close> times more than it would have before.
\<close>

theorem repeated_registration_not_deduplicated:
  fixes cfg :: ezcb_config and h :: heap and s :: ezcb_state
    and t :: string and p :: "8 word" and f c :: ptr and oflag :: bool
  defines "node \<equiv> \<lparr>trigger = t, priority = p, once = oflag, fn = f, ctx = c\<rparr>"
  assumes "registry_ok s"
    and "if EZCB_NO_MALLOC cfg
         then 0 < EZCB_MAX_BUCKETS cfg \<and> length t < EZCB_MAX_TRIGGER_LENGTH cfg
              \<and> k \<le> ezcb_free_list (if ezcb_table s = None then ezcb_init cfg h s else s)
         else calloc_ok h \<and> malloc_ok h"
  shows "\<exists>s'. register_calls cfg h (replicate k (t, p, f, c, oflag)) s = Inr (replicate k 0, s')
           \<and> count (mset (all_nodes s')) node = count (mset (all_nodes s)) node + k
           \<and> length (all_nodes s') = length (all_nodes s) + k
           \<and> (\<forall>cb d u.
                 (\<forall>n\<in>set (all_nodes s'). trigger n = t \<longrightarrow> (\<forall>v. fst (cb (fn n) (ctx n) d v) = EZCB_CONTINUE))
                 \<longrightarrow> (\<exists>s'' log u'. ezcb_trigger cfg cb t d s' u = Inr (s'', log, u')
                        \<and> length (filter (\<lambda>(n, r). n = node) log) = count (mset (all_nodes s)) node + k
                        \<and> (\<forall>(n, r)\<in>set log. r = EZCB_CONTINUE)))"
proof -
  from register_calls_same [OF assms(2,3), where p = p and f = f and c = c and oflag = oflag]
  obtain s' where r: "register_calls cfg h (replicate k (t, p, f, c, oflag)) s = Inr (replicate k 0, s')"
    and ok': "registry_ok s'"
    and n': "mset (all_nodes s') = mset (all_nodes s) + replicate_mset k node"
    by (auto simp: node_def)
  have cnt: "count (mset (all_nodes s')) node = count (mset (all_nodes s)) node + k"
    using n' by simp
  have len: "length (all_nodes s') = length (all_nodes s) + k"
    using arg_cong [OF n', of size] by simp
  have trig: "\<exists>s'' log u'. ezcb_trigger cfg cb t d s' u = Inr (s'', log, u')
                        \<and> length (filter (\<lambda>(n, r). n = node) log) = count (mset (all_nodes s)) node + k
                        \<and> (\<forall>(n, r)\<in>set log. r = EZCB_CONTINUE)"
    if cont: "\<forall>n\<in>set (all_nodes s'). trigger n = t \<longrightarrow> (\<forall>v. fst (cb (fn n) (ctx n) d v) = EZCB_CONTINUE)"
    for cb :: "'u ezcb_callbacks" and d u
  proof (cases "ezcb_table s'")
    case None
    then have "all_nodes s' = []" by (simp add: all_nodes_def)
    with cnt have "count (mset (all_nodes s)) node + k = 0" by simp
    with None show ?thesis by (simp add: ezcb_trigger_def)
  next
    case (Some tbl)
    let ?idx = "unat (ezcb_hash t) mod ezcb_buckets s'"
    from ok' Some have l: "length tbl = ezcb_buckets s'" and pos: "0 < ezcb_buckets s'"
      by (simp_all add: registry_ok_def)
    have idx: "?idx < length tbl" using l pos by simp
    have "set (tbl ! ?idx) \<subseteq> set (all_nodes s')"
      using Some nth_mem [OF idx] by (auto simp: all_nodes_def)
    with cont have "\<forall>n\<in>set (tbl ! ?idx). trigger n = t \<longrightarrow> (\<forall>v. fst (cb (fn n) (ctx n) d v) = EZCB_CONTINUE)"
      by blast
    from trigger_walk_all_continue [where cb = cb and d = d and u = u, OF this]
    obtain ch j u' where w: "trigger_walk cb t d (tbl ! ?idx) u =
        (ch, j, map (\<lambda>n. (n, EZCB_CONTINUE)) (filter (\<lambda>n. trigger n = t) (tbl ! ?idx)), u')"
      by blast
    let ?log = "map (\<lambda>n. (n, EZCB_CONTINUE)) (filter (\<lambda>n. trigger n = t) (tbl ! ?idx))"
    have e: "ezcb_trigger cfg cb t d s' u =
               Inr (released cfg j (s'\<lparr>ezcb_table := Some (tbl[?idx := ch])\<rparr>), ?log, u')"
      using ezcb_trigger_active [OF Some pos refl idx, of cfg cb d u] w by simp
    have "length (filter (\<lambda>(n, r). n = node) ?log) = length (filter (\<lambda>n. n = node \<and> trigger n = t) (tbl ! ?idx))"
      by (simp add: filter_map comp_def conj_commute)
    also have "(\<lambda>n. n = node \<and> trigger n = t) = (\<lambda>n. n = node)"
      by (auto simp: node_def)
    also have "length (filter (\<lambda>n. n = node) (tbl ! ?idx)) = count (mset (all_nodes s')) node"
      using count_bucket [OF ok' Some, of node] by (simp add: node_def)
    finally have "length (filter (\<lambda>(n, r). n = node) ?log) = count (mset (all_nodes s)) node + k"
      using cnt by simp
    moreover have "\<forall>(n, r)\<in>set ?log. r = EZCB_CONTINUE" by auto
    ultimately show ?thesis using e by blast
  qed
  from r cnt len trig show ?thesis by blast
qed

theorem repeated_registration_not_deduplicated_witness:
  "register_calls one_bucket heap_ok (replicate 3 (''b'', 5, 2, 0, False)) (ezcb_startup one_bucket)
     = Inr ([0, 0, 0], collide [node_b, node_b, node_b])
   \<and> (\<exists>s'' log u'. ezcb_trigger one_bucket stop_at_1 ''b'' 9 (collide [node_b, node_b, node_b]) 0 = Inr (s'', log, u')
         \<and> length (filter (\<lambda>(n, r). n = node_b) log) = 3)"
proof -
  have ok: "registry_ok (ezcb_startup one_bucket)" by (simp add: registry_ok_def ezcb_startup_def)
  have res: "if EZCB_NO_MALLOC one_bucket
         then 0 < EZCB_MAX_BUCKETS one_bucket \<and> length ''b'' < EZCB_MAX_TRIGGER_LENGTH one_bucket
              \<and> 3 \<le> ezcb_free_list (if ezcb_table (ezcb_startup one_bucket) = None
                                      then ezcb_init one_bucket heap_ok (ezcb_startup one_bucket)
                                      else ezcb_startup one_bucket)
         else calloc_ok heap_ok \<and> malloc_ok heap_ok"
    by (simp add: one_bucket_def ezcb_startup_def ezcb_init_def)
  have ev: "register_calls one_bucket heap_ok (replicate 3 (''b'', 5, 2, 0, False)) (ezcb_startup one_bucket)
     = Inr ([0, 0, 0], collide [node_b, node_b, node_b])"
    by (simp add: numeral_3_eq_3 ezcb_register_internal_def register_precheck_def ezcb_node_alloc_def
        register_link_def ezcb_init_def demo_defs)
  note th = repeated_registration_not_deduplicated [OF ok res, where p = 5 and f = 2 and c = 0
      and oflag = False, where ?'a = nat]
  from th obtain s' where all:
    "register_calls one_bucket heap_ok (replicate 3 (''b'', 5, 2, 0, False)) (ezcb_startup one_bucket)
        = Inr (replicate 3 0, s')
     \<and> count (mset (all_nodes s')) \<lparr>trigger = ''b'', priority = 5, once = False, fn = 2, ctx = 0\<rparr>
        = count (mset (all_nodes (ezcb_startup one_bucket)))
            \<lparr>trigger = ''b'', priority = 5, once = False, fn = 2, ctx = 0\<rparr> + 3
     \<and> length (all_nodes s') = length (all_nodes (ezcb_startup one_bucket)) + 3
     \<and> (\<forall>(cb :: nat ezcb_callbacks) d u.
           (\<forall>n\<in>set (all_nodes s'). trigger n = ''b'' \<longrightarrow> (\<forall>v. fst (cb (fn n) (ctx n) d v) = EZCB_CONTINUE))
           \<longrightarrow> (\<exists>s'' log u'. ezcb_trigger one_bucket cb ''b'' d s' u = Inr (s'', log, u')
                  \<and> length (filter (\<lambda>(n, r). n = \<lparr>trigger = ''b'', priority = 5, once = False, fn = 2, ctx = 0\<rparr>) log)
                      = count (mset (all_nodes (ezcb_startup one_bucket)))
                          \<lparr>trigger = ''b'', priority = 5, once = False, fn = 2, ctx = 0\<rparr> + 3
                  \<and> (\<forall>(n, r)\<in>set log. r = EZCB_CONTINUE)))" ..
  note r = all [THEN conjunct1]
  note tr = all [THEN conjunct2, THEN conjunct2, THEN conjunct2, THEN spec [where x = stop_at_1],
      THEN spec [where x = 9], THEN spec [where x = 0], THEN mp]
  from r ev have s': "s' = collide [node_b, node_b, node_b]" by simp
  have "\<forall>n\<in>set (all_nodes s'). trigger n = ''b'' \<longrightarrow> (\<forall>v. fst (stop_at_1 (fn n) (ctx n) 9 v) = EZCB_CONTINUE)"
    by (simp add: s' all_nodes_def demo_defs)
  from tr [OF this] have "\<exists>s'' log u'. ezcb_trigger one_bucket stop_at_1 ''b'' 9 (collide [node_b, node_b, node_b]) 0 = Inr (s'', log, u')
         \<and> length (filter (\<lambda>(n, r). n = node_b) log) = 3"
    by (simp add: s' all_nodes_def ezcb_startup_def node_b_def) blast
  with ev show ?thesis by simp
qed

text \<open>
  Claim C6 (growth in the malloc mode). On an initialized registry, register leaves the
  number of buckets alone when count * 4 < buckets * 3. Otherwise it first allocates the
  doubled array: when that fails the call returns -1 and the state is the one before the
  call; when it succeeds every node is rehashed into the doubled table (each new chain
  holds the old nodes of that bucket, in reverse order), and only then is the node
  allocated, so a failing malloc returns -1 with the table already grown.
\<close>

theorem register_growth_check:
  fixes t :: string and p :: "8 word" and f c :: ptr and oflag :: bool
  assumes "\<not> EZCB_NO_MALLOC cfg" and "registry_ok s" and "ezcb_table s = Some tbl"
  defines "node \<equiv> \<lparr>trigger = t, priority = p, once = oflag, fn = f, ctx = c\<rparr>"
  defines "idx \<equiv> unat (ezcb_hash t) mod ezcb_buckets s"
  defines "tbl2 \<equiv> rehash_table (ezcb_buckets s * 2) tbl"
  defines "idx2 \<equiv> unat (ezcb_hash t) mod (ezcb_buckets s * 2)"
  shows "(ezcb_count s * 4 < ezcb_buckets s * 3 \<longrightarrow>
            ezcb_register_internal cfg h t p f c oflag s =
              (if malloc_ok h
               then Inr (0, s\<lparr>ezcb_table := Some (tbl[idx := chain_insert t p node (tbl ! idx)]),
                               ezcb_count := ezcb_count s + 1\<rparr>)
               else Inr (- 1, s)))
       \<and> (ezcb_buckets s * 3 \<le> ezcb_count s * 4 \<and> \<not> calloc_ok h \<longrightarrow>
            ezcb_register_internal cfg h t p f c oflag s = Inr (- 1, s))
       \<and> (ezcb_buckets s * 3 \<le> ezcb_count s * 4 \<and> calloc_ok h \<longrightarrow>
            ezcb_register_internal cfg h t p f c oflag s =
              (if malloc_ok h
               then Inr (0, s\<lparr>ezcb_table := Some (tbl2[idx2 := chain_insert t p node (tbl2 ! idx2)]),
                               ezcb_buckets := ezcb_buckets s * 2,
                               ezcb_count := ezcb_count s + 1\<rparr>)
               else Inr (- 1, s\<lparr>ezcb_table := Some tbl2, ezcb_buckets := ezcb_buckets s * 2\<rparr>)))
       \<and> length tbl2 = ezcb_buckets s * 2
       \<and> (\<forall>j<ezcb_buckets s * 2.
             tbl2 ! j = rev (filter (\<lambda>n. unat (ezcb_hash (trigger n)) mod (ezcb_buckets s * 2) = j) (concat tbl)))
       \<and> mset (concat tbl2) = mset (concat tbl)"
proof -
  let ?grown = "s\<lparr>ezcb_table := Some tbl2, ezcb_buckets := ezcb_buckets s * 2\<rparr>"
  from assms(2,3) have pos: "0 < ezcb_buckets s" by (simp add: registry_ok_def)
  have s1: "(if ezcb_table s = None then ezcb_init cfg h s else s) = s" using assms(3) by simp
  have link: "register_link t p f c oflag s =
      Inr (0, s\<lparr>ezcb_table := Some (tbl[idx := chain_insert t p node (tbl ! idx)]),
                 ezcb_count := ezcb_count s + 1\<rparr>)"
    using register_link_ok(1) [OF assms(2,3)] by (simp add: node_def idx_def)
  have gr: "ezcb_resize h (ezcb_buckets s * 2) s = (if calloc_ok h then Inr (0, ?grown) else Inr (- 1, s))"
    and grok: "registry_ok ?grown"
    using resize_grown_ok(1,2) [OF assms(2,3)] by (simp_all add: tbl2_def)
  have link2: "register_link t p f c oflag ?grown =
      Inr (0, s\<lparr>ezcb_table := Some (tbl2[idx2 := chain_insert t p node (tbl2 ! idx2)]),
                 ezcb_buckets := ezcb_buckets s * 2,
                 ezcb_count := ezcb_count s + 1\<rparr>)"
    using register_link_ok(1) [OF grok, of tbl2 t p f c oflag] by (simp add: node_def idx2_def)
  have a: "ezcb_count s * 4 < ezcb_buckets s * 3 \<Longrightarrow>
            ezcb_register_internal cfg h t p f c oflag s =
              (if malloc_ok h
               then Inr (0, s\<lparr>ezcb_table := Some (tbl[idx := chain_insert t p node (tbl ! idx)]),
                               ezcb_count := ezcb_count s + 1\<rparr>)
               else Inr (- 1, s))"
    using assms(1) link
    by (simp add: ezcb_register_internal_def s1 register_precheck_def ezcb_node_alloc_def)
  have b: "ezcb_buckets s * 3 \<le> ezcb_count s * 4 \<Longrightarrow> \<not> calloc_ok h \<Longrightarrow>
            ezcb_register_internal cfg h t p f c oflag s = Inr (- 1, s)"
    using assms(1) gr
    by (simp add: ezcb_register_internal_def s1 register_precheck_def)
  have c: "ezcb_buckets s * 3 \<le> ezcb_count s * 4 \<Longrightarrow> calloc_ok h \<Longrightarrow>
            ezcb_register_internal cfg h t p f c oflag s =
              (if malloc_ok h
               then Inr (0, s\<lparr>ezcb_table := Some (tbl2[idx2 := chain_insert t p node (tbl2 ! idx2)]),
                               ezcb_buckets := ezcb_buckets s * 2,
                               ezcb_count := ezcb_count s + 1\<rparr>)
               else Inr (- 1, ?grown))"
    using assms(1) gr link2
    by (simp add: ezcb_register_internal_def s1 register_precheck_def ezcb_node_alloc_def)
  have d: "length tbl2 = ezcb_buckets s * 2" by (simp add: tbl2_def rehash_table_length)
  have e: "\<forall>j<ezcb_buckets s * 2.
             tbl2 ! j = rev (filter (\<lambda>n. unat (ezcb_hash (trigger n)) mod (ezcb_buckets s * 2) = j) (concat tbl))"
    using rehash_table_nth [of _ "ezcb_buckets s * 2" tbl] by (simp add: tbl2_def bucket_of_def)
  have g: "mset (concat tbl2) = mset (concat tbl)"
    using pos by (simp add: tbl2_def rehash_table_mset)
  from a b c d e g show ?thesis by blast
qed

lemma sixteen_ok: "registry_ok (sixteen (replicate k node_a))"
  by (simp add: sixteen_def registry_ok_def ezcb_startup_def placed_from_iff nth_list_update
      bucket_of_def node_a_def hash_a concat_replicate_update)

theorem register_growth_check_witness:
  "ezcb_count (sixteen (replicate 12 node_a)) * 4 = ezcb_buckets (sixteen (replicate 12 node_a)) * 3
   \<and> ezcb_register_internal header_defaults \<lparr>calloc_ok = False, malloc_ok = True\<rparr> ''b'' 0 13 0 False
         (sixteen (replicate 12 node_a))
       = Inr (- 1, sixteen (replicate 12 node_a))
   \<and> ezcb_register_internal header_defaults \<lparr>calloc_ok = True, malloc_ok = False\<rparr> ''b'' 0 13 0 False
         (sixteen (replicate 12 node_a))
       = Inr (- 1, (sixteen (replicate 12 node_a))
                     \<lparr>ezcb_table := Some (rehash_table 32 ((replicate 16 [])[4 := replicate 12 node_a])),
                      ezcb_buckets := 32\<rparr>)
   \<and> rehash_table 32 ((replicate 16 [])[4 := replicate 12 node_a]) ! 4 = replicate 12 node_a
   \<and> ezcb_register_internal header_defaults \<lparr>calloc_ok = False, malloc_ok = True\<rparr> ''b'' 0 13 0 False
         (sixteen (replicate 11 node_a))
       = Inr (0, (sixteen (replicate 11 node_a))
                   \<lparr>ezcb_table := Some ((replicate 16 [])[4 := replicate 11 node_a,
                        7 := [\<lparr>trigger = ''b'', priority = 0, once = False, fn = 13, ctx = 0\<rparr>]]),
                    ezcb_count := 12\<rparr>)"
proof -
  have dyn: "\<not> EZCB_NO_MALLOC header_defaults" by (simp add: header_defaults_def)
  have tb: "ezcb_table (sixteen (replicate k node_a)) = Some ((replicate 16 [])[4 := replicate k node_a])" for k
    by (simp add: sixteen_def)
  note w = register_growth_check [OF dyn sixteen_ok [of 12] tb [of 12]]
  note w11 = register_growth_check [OF dyn sixteen_ok [of 11] tb [of 11]]
  have a: "ezcb_count (sixteen (replicate 12 node_a)) * 4 = ezcb_buckets (sixteen (replicate 12 node_a)) * 3"
    by (simp add: sixteen_def)
  have b: "ezcb_register_internal header_defaults \<lparr>calloc_ok = False, malloc_ok = True\<rparr> ''b'' 0 13 0 False
         (sixteen (replicate 12 node_a))
       = Inr (- 1, sixteen (replicate 12 node_a))"
    using w [where h = "\<lparr>calloc_ok = False, malloc_ok = True\<rparr>" and t = "''b''" and p = 0
        and f = 13 and c = 0 and oflag = False] a
    by simp
  have c: "ezcb_register_internal header_defaults \<lparr>calloc_ok = True, malloc_ok = False\<rparr> ''b'' 0 13 0 False
         (sixteen (replicate 12 node_a))
       = Inr (- 1, (sixteen (replicate 12 node_a))
                     \<lparr>ezcb_table := Some (rehash_table 32 ((replicate 16 [])[4 := replicate 12 node_a])),
                      ezcb_buckets := 32\<rparr>)"
    using w [where h = "\<lparr>calloc_ok = True, malloc_ok = False\<rparr>" and t = "''b''" and p = 0
        and f = 13 and c = 0 and oflag = False] a
    by (simp add: sixteen_def)
  have d: "rehash_table 32 ((replicate 16 [])[4 := replicate 12 node_a]) ! 4 = replicate 12 node_a"
    using w [where h = heap_ok and t = "''b''" and p = 0 and f = 13 and c = 0 and oflag = False]
    by (simp add: sixteen_def concat_replicate_update node_a_def hash_a)
  have e: "ezcb_register_internal header_defaults \<lparr>calloc_ok = False, malloc_ok = True\<rparr> ''b'' 0 13 0 False
         (sixteen (replicate 11 node_a))
       = Inr (0, (sixteen (replicate 11 node_a))
                   \<lparr>ezcb_table := Some ((replicate 16 [])[4 := replicate 11 node_a,
                        7 := [\<lparr>trigger = ''b'', priority = 0, once = False, fn = 13, ctx = 0\<rparr>]]),
                    ezcb_count := 12\<rparr>)"
    using w11 [where h = "\<lparr>calloc_ok = False, malloc_ok = True\<rparr>" and t = "''b''" and p = 0
        and f = 13 and c = 0 and oflag = False]
    by (simp add: sixteen_def hash_b)
  from a b c d e show ?thesis by simp
qed

subsection \<open>The invariant is kept\<close>

lemma startup_ok: "registry_ok (ezcb_startup cfg)"
  by (simp add: registry_ok_def ezcb_startup_def)

lemma startup_queue_ok: "0 < EZCB_EVENT_QUEUE_SIZE cfg \<Longrightarrow> queue_ok cfg (ezcb_startup cfg)"
  by (simp add: queue_ok_def ezcb_startup_def ring_size_def)

lemma init_keeps:
  assumes "registry_ok s" and "EZCB_NO_MALLOC cfg \<longrightarrow> 0 < EZCB_MAX_BUCKETS cfg"
  shows "registry_ok (ezcb_init cfg h s)"
proof (cases "ezcb_table s")
  case None
  from ezcb_init_ok(1) [OF None assms(2)] show ?thesis .
next
  case (Some tbl)
  with assms(1) show ?thesis by (simp add: ezcb_init_def)
qed

lemma resize_keeps:
  assumes "registry_ok s" and "ezcb_table s = Some tbl" and "ezcb_resize h (ezcb_buckets s * 2) s = Inr (rc, s')"
  shows "registry_ok s' \<and> ezcb_table s' \<noteq> None"
  using resize_grown_ok(1) [OF assms(1,2), of h] resize_grown_ok(2) [OF assms(1,2)] assms
  by (auto split: if_splits)

lemma register_keeps:
  assumes "registry_ok s" and "EZCB_NO_MALLOC cfg \<longrightarrow> 0 < EZCB_MAX_BUCKETS cfg"
    and "ezcb_register_internal cfg h t p f c oflag s = Inr (rc, s')"
  shows "registry_ok s'"
proof -
  let ?s1 = "if ezcb_table s = None then ezcb_init cfg h s else s"
  have ok1: "registry_ok ?s1" using init_keeps [OF assms(1,2), of h] assms(1) by simp
  obtain rc2 s2 where pre: "register_precheck cfg h t ?s1 = Inr (rc2, s2)"
    using assms(3) by (auto simp: ezcb_register_internal_def Let_def split: sum.splits)
  have ok2: "registry_ok s2"
  proof (cases "ezcb_table ?s1")
    case None
    then have "ezcb_buckets ?s1 = 16" "ezcb_count ?s1 = 0" "\<not> EZCB_NO_MALLOC cfg"
      by (auto simp: ezcb_init_def split: if_splits)
    with pre ok1 show ?thesis by (simp add: register_precheck_def)
  next
    case (Some tbl1)
    show ?thesis
    proof (cases "\<not> EZCB_NO_MALLOC cfg \<and> ezcb_buckets ?s1 * 3 \<le> ezcb_count ?s1 * 4")
      case True
      with pre have "ezcb_resize h (ezcb_buckets ?s1 * 2) ?s1 = Inr (rc2, s2)"
        by (simp add: register_precheck_def)
      from resize_keeps [OF ok1 Some this] show ?thesis by simp
    next
      case False
      with pre ok1 show ?thesis by (auto simp: register_precheck_def split: if_splits)
    qed
  qed
  show ?thesis
  proof (cases "rc2 = 0")
    case False
    with assms(3) pre ok2 show ?thesis by (simp add: ezcb_register_internal_def)
  next
    case True
    show ?thesis
    proof (cases "ezcb_node_alloc cfg h s2")
      case None
      with assms(3) pre True ok2 show ?thesis by (simp add: ezcb_register_internal_def)
    next
      case (Some s3)
      then have ok3: "registry_ok s3" using ok2 by (auto simp: ezcb_node_alloc_def split: if_splits)
      from assms(3) pre True Some have l: "register_link t p f c oflag s3 = Inr (rc, s')"
        by (simp add: ezcb_register_internal_def)
      then obtain tbl3 where t3: "ezcb_table s3 = Some tbl3"
        by (auto simp: register_link_def split: if_splits option.splits)
      from register_link_ok(1,2) [OF ok3 t3, where t = t and p = p and f = f and c = c and oflag = oflag] l
      show ?thesis by simp
    qed
  qed
qed

lemma length_concat_filter:
  "length (concat (map (filter (\<lambda>n. \<not> P n)) tbl)) + length (filter P (concat tbl)) = length (concat tbl)"
proof (induction tbl)
  case Nil
  show ?case by simp
next
  case (Cons ch tbl)
  have "length (filter (\<lambda>n. \<not> P n) ch) + length (filter P ch) = length ch"
    using sum_length_filter_compl [of P ch] by simp
  with Cons show ?case by simp
qed

lemma placed_from_filter:
  "placed_from m i tbl \<Longrightarrow> placed_from m i (map (filter Q) tbl)"
  by (induction tbl arbitrary: i) (auto simp: list_all_iff)

lemma unregister_keeps:
  assumes "registry_ok s"
  shows "\<exists>rc s'. ezcb_unregister cfg topt f c s = Inr (rc, s') \<and> registry_ok s'
           \<and> ezcb_evt_queue s' = ezcb_evt_queue s \<and> ezcb_evt_head s' = ezcb_evt_head s
           \<and> ezcb_evt_tail s' = ezcb_evt_tail s"
proof (cases "ezcb_table s")
  case None
  with assms show ?thesis by (simp add: ezcb_unregister_def)
next
  case (Some tbl)
  let ?k = "length (filter (unregister_hit topt f c) (concat tbl))"
  let ?tbl = "map (filter (\<lambda>n. \<not> unregister_hit topt f c n)) tbl"
  from unregister_result [OF Some assms, of cfg topt f c]
  have r: "ezcb_unregister cfg topt f c s = Inr (int ?k, released cfg ?k (s\<lparr>ezcb_table := Some ?tbl\<rparr>))"
    by simp
  from assms Some have len: "length tbl = ezcb_buckets s" and pos: "0 < ezcb_buckets s"
    and placed: "placed_from (ezcb_buckets s) 0 tbl" and c: "ezcb_count s = length (concat tbl)"
    by (simp_all add: registry_ok_def)
  have "ezcb_count s - ?k = length (concat ?tbl)"
    using length_concat_filter [of "unregister_hit topt f c" tbl] c by simp
  then have "registry_ok (released cfg ?k (s\<lparr>ezcb_table := Some ?tbl\<rparr>))"
    using len pos placed_from_filter [OF placed] by (simp add: registry_ok_def released_def)
  with r show ?thesis by (simp add: released_def)
qed

lemma deinit_keeps:
  assumes "registry_ok s"
  shows "\<exists>s'. ezcb_deinit cfg s = Inr s' \<and> registry_ok s' \<and> ezcb_table s' = None"
proof (cases "ezcb_table s")
  case None
  with assms show ?thesis by (simp add: ezcb_deinit_def)
next
  case (Some tbl)
  with assms have "length tbl = ezcb_buckets s" by (simp add: registry_ok_def)
  with Some show ?thesis by (simp add: ezcb_deinit_def registry_ok_def)
qed

lemma isr_keeps:
  assumes "queue_ok cfg s"
  shows "\<exists>rc s'. ezcb_trigger_isr cfg t d s = Inr (rc, s') \<and> queue_ok cfg s'
           \<and> ezcb_table s' = ezcb_table s \<and> ezcb_buckets s' = ezcb_buckets s
           \<and> ezcb_count s' = ezcb_count s \<and> ezcb_free_list s' = ezcb_free_list s"
proof (cases "evt_pending_count cfg s = ring_size cfg - 1")
  case True
  from isr_when_full [OF assms True, of t d] assms show ?thesis by simp
next
  case False
  from isr_when_room(1,2) [OF assms False, of t d] show ?thesis by simp
qed

lemma register_without_table:
  assumes "ezcb_table s = None" and "\<not> EZCB_NO_MALLOC cfg" and "\<not> calloc_ok h"
  shows "ezcb_register_internal cfg h t p f c oflag s =
           (if malloc_ok h then Inl NullTableDeref else Inr (- 1, ezcb_init cfg h s))"
  using assms
  by (simp add: ezcb_register_internal_def ezcb_init_def register_precheck_def ezcb_node_alloc_def
      register_link_def)

lemma register_defined:
  assumes "registry_ok s" and "EZCB_NO_MALLOC cfg \<longrightarrow> 0 < EZCB_MAX_BUCKETS cfg"
    and "ezcb_table s \<noteq> None \<or> EZCB_NO_MALLOC cfg \<or> calloc_ok h \<or> \<not> malloc_ok h"
  shows "\<exists>rc s'. ezcb_register_internal cfg h t p f c oflag s = Inr (rc, s')"
proof (cases "ezcb_table s = None \<and> \<not> EZCB_NO_MALLOC cfg \<and> \<not> calloc_ok h")
  case True
  with assms(3) register_without_table [of s cfg h t p f c oflag] show ?thesis by simp
next
  case False
  let ?s1 = "if ezcb_table s = None then ezcb_init cfg h s else s"
  have ok1: "registry_ok ?s1" using init_keeps [OF assms(1,2), of h] assms(1) by simp
  have "ezcb_table ?s1 \<noteq> None" using False by (auto simp: ezcb_init_def)
  then obtain tbl1 where t1: "ezcb_table ?s1 = Some tbl1" by blast
  have "\<exists>rc2 s2. register_precheck cfg h t ?s1 = Inr (rc2, s2) \<and> registry_ok s2 \<and> ezcb_table s2 \<noteq> None"
  proof (cases "\<not> EZCB_NO_MALLOC cfg \<and> ezcb_buckets ?s1 * 3 \<le> ezcb_count ?s1 * 4")
    case True
    with resize_grown_ok(1) [OF ok1 t1, of h] resize_grown_ok(2) [OF ok1 t1] ok1 t1 show ?thesis
      by (simp add: register_precheck_def)
  next
    case nogrow: False
    with ok1 t1 show ?thesis by (auto simp: register_precheck_def)
  qed
  then obtain rc2 s2 where pre: "register_precheck cfg h t ?s1 = Inr (rc2, s2)"
    and ok2: "registry_ok s2" and t2: "ezcb_table s2 \<noteq> None" by blast
  show ?thesis
  proof (cases "rc2 = 0")
    case False
    with pre show ?thesis by (simp add: ezcb_register_internal_def)
  next
    case True
    show ?thesis
    proof (cases "ezcb_node_alloc cfg h s2")
      case None
      with pre True show ?thesis by (simp add: ezcb_register_internal_def)
    next
      case (Some s3)
      then have ok3: "registry_ok s3" and "ezcb_table s3 \<noteq> None"
        using ok2 t2 by (auto simp: ezcb_node_alloc_def split: if_splits)
      then obtain tbl3 where t3: "ezcb_table s3 = Some tbl3" by blast
      from register_link_ok(1) [OF ok3 t3, where t = t and p = p and f = f and c = c and oflag = oflag]
        pre True Some
      show ?thesis by (simp add: ezcb_register_internal_def)
    qed
  qed
qed

text \<open>
  The invariant of the registry holds at start-up and after every operation. On a state
  that has it, unregister, trigger and deinit never read through a NULL table, divide by
  zero or index out of range; register does so in one case only: the malloc build on an
  uninitialized registry whose \<^verbatim>\<open>calloc\<close> in \<open>ezcb_init\<close> fails while the \<^verbatim>\<open>malloc\<close> of the node
  succeeds (the node is then linked into a NULL table).
\<close>

theorem operations_keep_invariant:
  assumes "registry_ok s" and "EZCB_NO_MALLOC cfg \<longrightarrow> 0 < EZCB_MAX_BUCKETS cfg"
  shows "registry_ok (ezcb_startup cfg)
       \<and> registry_ok (ezcb_init cfg h s)
       \<and> (\<forall>rc s'. ezcb_register_internal cfg h t p f c oflag s = Inr (rc, s') \<longrightarrow> registry_ok s')
       \<and> (ezcb_table s \<noteq> None \<or> EZCB_NO_MALLOC cfg \<or> calloc_ok h \<or> \<not> malloc_ok h \<longrightarrow>
            (\<exists>rc s'. ezcb_register_internal cfg h t p f c oflag s = Inr (rc, s')))
       \<and> (ezcb_table s = None \<and> \<not> EZCB_NO_MALLOC cfg \<and> \<not> calloc_ok h \<and> malloc_ok h \<longrightarrow>
            ezcb_register_internal cfg h t p f c oflag s = Inl NullTableDeref)
       \<and> (\<exists>rc s'. ezcb_unregister cfg topt uf uc s = Inr (rc, s') \<and> registry_ok s')
       \<and> (\<exists>s' log u'. ezcb_trigger cfg cb tn d s u = Inr (s', log, u') \<and> registry_ok s')
       \<and> (\<exists>s'. ezcb_deinit cfg s = Inr s' \<and> registry_ok s' \<and> ezcb_table s' = None)"
proof -
  have a: "\<forall>rc s'. ezcb_register_internal cfg h t p f c oflag s = Inr (rc, s') \<longrightarrow> registry_ok s'"
    using register_keeps [OF assms] by blast
  have b: "ezcb_table s \<noteq> None \<or> EZCB_NO_MALLOC cfg \<or> calloc_ok h \<or> \<not> malloc_ok h \<longrightarrow>
            (\<exists>rc s'. ezcb_register_internal cfg h t p f c oflag s = Inr (rc, s'))"
    using register_defined [OF assms] by blast
  have c: "ezcb_table s = None \<and> \<not> EZCB_NO_MALLOC cfg \<and> \<not> calloc_ok h \<and> malloc_ok h \<longrightarrow>
            ezcb_register_internal cfg h t p f c oflag s = Inl NullTableDeref"
    using register_without_table [of s cfg h t p f c oflag] by simp
  have d: "\<exists>rc s'. ezcb_unregister cfg topt uf uc s = Inr (rc, s') \<and> registry_ok s'"
    using unregister_keeps [OF assms(1), of cfg topt uf uc] by blast
  have e: "\<exists>s' log u'. ezcb_trigger cfg cb tn d s u = Inr (s', log, u') \<and> registry_ok s'"
    using ezcb_trigger_ok [OF assms(1), of cfg cb tn d u] by blast
  from startup_ok [of cfg] init_keeps [OF assms, of h] a b c d e deinit_keeps [OF assms(1), of cfg]
  show ?thesis by blast
qed

theorem operations_keep_invariant_witness:
  "registry_ok (collide [node_a, node_b])
   \<and> registry_ok (collide [node_a, node_b, node_c])
   \<and> ezcb_register_internal one_bucket heap_ok ''c'' 1 3 0 True (collide [node_a, node_b])
       = Inr (0, collide [node_a, node_b, node_c])
   \<and> ezcb_register_internal header_defaults \<lparr>calloc_ok = False, malloc_ok = True\<rparr> ''c'' 1 3 0 True
         (ezcb_startup header_defaults) = Inl NullTableDeref"
proof -
  have ok: "registry_ok (collide [node_a, node_b])"
    by (simp add: registry_ok_def bucket_of_def demo_defs)
  have cfg: "EZCB_NO_MALLOC one_bucket \<longrightarrow> 0 < EZCB_MAX_BUCKETS one_bucket"
    by (simp add: one_bucket_def)
  have r: "ezcb_register_internal one_bucket heap_ok ''c'' 1 3 0 True (collide [node_a, node_b])
       = Inr (0, collide [node_a, node_b, node_c])"
    by (simp add: ezcb_register_internal_def register_precheck_def ezcb_node_alloc_def
        register_link_def demo_defs node_c_def)
  from operations_keep_invariant [OF ok cfg, where h = heap_ok and t = "''c''" and p = 1 and f = 3
      and c = 0 and oflag = True and topt = None and uf = 0 and uc = 0 and cb = stop_at_1
      and tn = "''a''" and d = 0 and u = 0] r
  have ok': "registry_ok (collide [node_a, node_b, node_c])" by simp
  have ok0: "registry_ok (ezcb_startup header_defaults)" by (simp add: registry_ok_def ezcb_startup_def)
  have cfg0: "EZCB_NO_MALLOC header_defaults \<longrightarrow> 0 < EZCB_MAX_BUCKETS header_defaults"
    by (simp add: header_defaults_def)
  from operations_keep_invariant [OF ok0 cfg0, where h = "\<lparr>calloc_ok = False, malloc_ok = True\<rparr>"
      and t = "''c''" and p = 1 and f = 3 and c = 0 and oflag = True and topt = None and uf = 0
      and uc = 0 and cb = stop_at_1 and tn = "''a''" and d = 0 and u = 0]
  have "ezcb_register_internal header_defaults \<lparr>calloc_ok = False, malloc_ok = True\<rparr> ''c'' 1 3 0 True
         (ezcb_startup header_defaults) = Inl NullTableDeref"
    by (simp add: header_defaults_def ezcb_startup_def)
  with ok ok' r show ?thesis by simp
qed

subsection \<open>Priority order without growth\<close>

lemma chain_insert_set: "set (chain_insert t p node chain) = insert node (set chain)"
  using arg_cong [OF chain_insert_mset [of t p node chain], of set_mset] by simp

lemma chain_insert_sorted:
  assumes "same_trigger_sorted chain" and "trigger node = t" and "priority node = p"
  shows "same_trigger_sorted (chain_insert t p node chain)"
  using assms(1)
proof (induction chain)
  case Nil
  show ?case by (simp add: same_trigger_sorted_def)
next
  case (Cons cur rest)
  from Cons.prems have rest: "same_trigger_sorted rest"
    and before: "\<forall>x\<in>set rest. trigger cur = trigger x \<longrightarrow> priority x \<le> priority cur"
    by (simp_all add: same_trigger_sorted_def)
  show ?case
  proof (cases "trigger cur = t \<and> priority cur < p")
    case True
    have "\<forall>x\<in>set (cur # rest). trigger node = trigger x \<longrightarrow> priority x \<le> priority node"
    proof (intro ballI impI)
      fix x assume x: "x \<in> set (cur # rest)" and tx: "trigger node = trigger x"
      show "priority x \<le> priority node"
      proof (cases "x = cur")
        case True
        with \<open>trigger cur = t \<and> priority cur < p\<close> assms(3) show ?thesis by (simp add: less_imp_le)
      next
        case False
        with x have "x \<in> set rest" by simp
        with before tx assms(2) True have "priority x \<le> priority cur" by simp
        with True assms(3) show ?thesis by (auto intro: order_trans less_imp_le)
      qed
    qed
    with True Cons.prems show ?thesis by (simp add: same_trigger_sorted_def)
  next
    case False
    have "\<forall>x\<in>set (chain_insert t p node rest). trigger cur = trigger x \<longrightarrow> priority x \<le> priority cur"
    proof (intro ballI impI)
      fix x assume x: "x \<in> set (chain_insert t p node rest)" and tx: "trigger cur = trigger x"
      show "priority x \<le> priority cur"
      proof (cases "x \<in> set rest")
        case True
        with before tx show ?thesis by simp
      next
        case notin: False
        with x have "x = node" by (simp add: chain_insert_set)
        with tx assms(2,3) False show ?thesis by (simp add: not_less)
      qed
    qed
    moreover have "chain_insert t p node (cur # rest) = cur # chain_insert t p node rest"
      using False by auto
    ultimately show ?thesis using Cons.IH [OF rest] by (simp add: same_trigger_sorted_def)
  qed
qed

lemma chain_insert_position:
  "\<exists>pre post. chain = pre @ post \<and> chain_insert t p node chain = pre @ node # post
     \<and> (\<forall>n\<in>set pre. trigger n = t \<longrightarrow> p \<le> priority n)
     \<and> (same_trigger_sorted chain \<longrightarrow> (\<forall>n\<in>set post. trigger n = t \<longrightarrow> priority n < p))"
proof (induction chain)
  case Nil
  show ?case by simp
next
  case (Cons cur rest)
  show ?case
  proof (cases "trigger cur = t \<and> priority cur < p")
    case True
    have "same_trigger_sorted (cur # rest) \<longrightarrow> (\<forall>n\<in>set (cur # rest). trigger n = t \<longrightarrow> priority n < p)"
      using True by (auto simp: same_trigger_sorted_def)
    moreover have "cur # rest = [] @ (cur # rest)" by simp
    moreover have "chain_insert t p node (cur # rest) = [] @ node # cur # rest" using True by simp
    ultimately show ?thesis by (metis empty_iff list.set(1))
  next
    case False
    from Cons.IH obtain pre post where ih: "rest = pre @ post"
      "chain_insert t p node rest = pre @ node # post"
      "\<forall>n\<in>set pre. trigger n = t \<longrightarrow> p \<le> priority n"
      "same_trigger_sorted rest \<longrightarrow> (\<forall>n\<in>set post. trigger n = t \<longrightarrow> priority n < p)"
      by blast
    have a: "cur # rest = (cur # pre) @ post" using ih(1) by simp
    have b: "chain_insert t p node (cur # rest) = (cur # pre) @ node # post" using False ih(2) by auto
    have c: "\<forall>n\<in>set (cur # pre). trigger n = t \<longrightarrow> p \<le> priority n"
      using False ih(3) by (auto simp: not_less)
    have d: "same_trigger_sorted (cur # rest) \<longrightarrow> (\<forall>n\<in>set post. trigger n = t \<longrightarrow> priority n < p)"
      using ih(4) by (simp add: same_trigger_sorted_def)
    from a b c d show ?thesis by blast
  qed
qed

lemma unregister_walk_sorted:
  "same_trigger_sorted chain \<Longrightarrow> same_trigger_sorted (fst (unregister_walk hit chain))"
  by (simp add: unregister_walk_filter same_trigger_sorted_def sorted_wrt_filter)

lemma trigger_walk_sorted:
  "same_trigger_sorted xs \<Longrightarrow> trigger_walk cb t d xs u = (xs', k, log, u') \<Longrightarrow> same_trigger_sorted xs'"
proof (induction xs arbitrary: u xs' k log u')
  case Nil
  then show ?case by simp
next
  case (Cons a xs)
  from Cons.prems(1) have rest: "same_trigger_sorted xs"
    and before: "\<forall>x\<in>set xs. trigger a = trigger x \<longrightarrow> priority x \<le> priority a"
    by (simp_all add: same_trigger_sorted_def)
  have keep: "same_trigger_sorted (a # ys)" if "same_trigger_sorted ys" "set ys \<subseteq> set xs" for ys
    using that before by (auto simp: same_trigger_sorted_def)
  show ?case
  proof (cases "trigger a = t")
    case False
    obtain xs2 k2 log2 u2 where w: "trigger_walk cb t d xs u = (xs2, k2, log2, u2)"
      by (cases "trigger_walk cb t d xs u")
    from False w Cons.prems(2) have "xs' = a # xs2" by simp
    with keep [OF Cons.IH [OF rest w]] trigger_walk_kept [OF w] show ?thesis by simp
  next
    case True
    obtain r u1 where cb: "cb (fn a) (ctx a) d u = (r, u1)" by (cases "cb (fn a) (ctx a) d u")
    obtain xs2 k2 log2 u2 where w: "trigger_walk cb t d xs u1 = (xs2, k2, log2, u2)"
      by (cases "trigger_walk cb t d xs u1")
    from True cb w Cons.prems(2) have "xs' = xs \<or> xs' = xs2 \<or> xs' = a # xs \<or> xs' = a # xs2"
      by (auto split: if_splits)
    with rest Cons.prems(1) Cons.IH [OF rest w] keep [OF Cons.IH [OF rest w]] trigger_walk_kept [OF w]
    show ?thesis by auto
  qed
qed

lemma table_sorted_update:
  assumes "table_sorted s" and "ezcb_table s = Some tbl" and "same_trigger_sorted ch"
  shows "list_all same_trigger_sorted (tbl[i := ch])"
proof -
  from assms(1,2) have "\<forall>x\<in>set tbl. same_trigger_sorted x" by (simp add: table_sorted_def list_all_iff)
  with assms(3) set_update_subset_insert [of tbl i ch] show ?thesis
    by (auto simp: list_all_iff)
qed

lemma table_sorted_nth:
  assumes "table_sorted s" and "ezcb_table s = Some tbl" and "i < length tbl"
  shows "same_trigger_sorted (tbl ! i)"
  using assms by (simp add: table_sorted_def list_all_iff)

lemma register_link_sorted:
  assumes "table_sorted s" and "register_link t p f c oflag s = Inr (rc, s')"
  shows "table_sorted s'"
proof -
  from assms(2) obtain tbl where tb: "ezcb_table s = Some tbl"
    by (auto simp: register_link_def split: if_splits option.splits)
  let ?idx = "unat (ezcb_hash t) mod ezcb_buckets s"
  let ?node = "\<lparr>trigger = t, priority = p, once = oflag, fn = f, ctx = c\<rparr>"
  from assms(2) tb have idx: "?idx < length tbl"
    and s': "s' = s\<lparr>ezcb_table := Some (tbl[?idx := chain_insert t p ?node (tbl ! ?idx)]), ezcb_count := ezcb_count s + 1\<rparr>"
    by (auto simp: register_link_def Let_def split: if_splits)
  have "same_trigger_sorted (chain_insert t p ?node (tbl ! ?idx))"
    by (rule chain_insert_sorted [OF table_sorted_nth [OF assms(1) tb idx]]) simp_all
  from table_sorted_update [OF assms(1) tb this] show ?thesis by (simp add: s' table_sorted_def)
qed

lemma table_sorted_fields [simp]:
  "table_sorted (s\<lparr>ezcb_free_list := x\<rparr>) = table_sorted s"
  "table_sorted (s\<lparr>ezcb_count := y\<rparr>) = table_sorted s"
  by (simp_all add: table_sorted_def)

lemma register_sorted:
  assumes "table_sorted s"
    and "EZCB_NO_MALLOC cfg \<or> ezcb_table s = None \<or> ezcb_count s * 4 < ezcb_buckets s * 3"
    and "ezcb_register_internal cfg h t p f c oflag s = Inr (rc, s')"
  shows "table_sorted s'"
proof -
  let ?s1 = "if ezcb_table s = None then ezcb_init cfg h s else s"
  have ok1: "table_sorted ?s1" using assms(1)
    by (auto simp: ezcb_init_def table_sorted_def list_all_iff same_trigger_sorted_def)
  have pre: "register_precheck cfg h t ?s1 =
               Inr (if EZCB_NO_MALLOC cfg \<and> EZCB_MAX_TRIGGER_LENGTH cfg \<le> length t then - 1 else 0, ?s1)"
    using assms(2) by (auto simp: register_precheck_def ezcb_init_def not_le)
  show ?thesis
  proof (cases "EZCB_NO_MALLOC cfg \<and> EZCB_MAX_TRIGGER_LENGTH cfg \<le> length t")
    case True
    with assms(3) pre ok1 show ?thesis by (simp add: ezcb_register_internal_def)
  next
    case False
    show ?thesis
    proof (cases "ezcb_node_alloc cfg h ?s1")
      case None
      with assms(3) pre False ok1 show ?thesis by (simp add: ezcb_register_internal_def)
    next
      case (Some s3)
      then have ok3: "table_sorted s3" using ok1 by (auto simp: ezcb_node_alloc_def split: if_splits)
      from assms(3) pre False Some have "register_link t p f c oflag s3 = Inr (rc, s')"
        by (simp add: ezcb_register_internal_def)
      from register_link_sorted [OF ok3 this] show ?thesis .
    qed
  qed
qed

lemma unregister_sorted:
  assumes "table_sorted s" and "registry_ok s" and "ezcb_unregister cfg topt f c s = Inr (rc, s')"
  shows "table_sorted s'"
proof (cases "ezcb_table s")
  case None
  with assms show ?thesis by (simp add: ezcb_unregister_def)
next
  case (Some tbl)
  from unregister_result [OF Some assms(2), of cfg topt f c] assms(3)
  have s': "s' = released cfg (length (filter (unregister_hit topt f c) (concat tbl)))
                  (s\<lparr>ezcb_table := Some (map (filter (\<lambda>n. \<not> unregister_hit topt f c n)) tbl)\<rparr>)"
    by simp
  from assms(1) Some have "\<forall>x\<in>set tbl. same_trigger_sorted x" by (simp add: table_sorted_def list_all_iff)
  then have "list_all same_trigger_sorted (map (filter (\<lambda>n. \<not> unregister_hit topt f c n)) tbl)"
    by (auto simp: list_all_iff same_trigger_sorted_def sorted_wrt_filter)
  then show ?thesis by (simp add: s' released_def table_sorted_def)
qed

lemma trigger_sorted:
  assumes "table_sorted s" and "ezcb_trigger cfg cb t d s u = Inr (s', log, u')"
  shows "table_sorted s'"
proof (cases "ezcb_table s")
  case None
  with assms show ?thesis by (simp add: ezcb_trigger_def)
next
  case (Some tbl)
  let ?idx = "unat (ezcb_hash t) mod ezcb_buckets s"
  from assms(2) Some have pos: "0 < ezcb_buckets s" and idx: "?idx < length tbl"
    by (auto simp: ezcb_trigger_def Let_def split: if_splits)
  obtain ch k lg v where w: "trigger_walk cb t d (tbl ! ?idx) u = (ch, k, lg, v)"
    by (cases "trigger_walk cb t d (tbl ! ?idx) u")
  from ezcb_trigger_active [OF Some pos refl idx, of cfg cb d u] w assms(2)
  have s': "s' = released cfg k (s\<lparr>ezcb_table := Some (tbl[?idx := ch])\<rparr>)" by simp
  have "same_trigger_sorted ch"
    by (rule trigger_walk_sorted [OF table_sorted_nth [OF assms(1) Some idx] w])
  from table_sorted_update [OF assms(1) Some this] show ?thesis
    by (simp add: s' released_def table_sorted_def)
qed

lemma trigger_walk_log_mem:
  "trigger_walk cb t d xs u = (xs', k, log, u') \<Longrightarrow> (n, r) \<in> set log \<Longrightarrow> n \<in> set xs"
proof (induction xs arbitrary: u xs' k log u')
  case Nil
  then show ?case by simp
next
  case (Cons a xs)
  show ?case
  proof (cases "trigger a = t")
    case False
    obtain xs2 k2 log2 u2 where w: "trigger_walk cb t d xs u = (xs2, k2, log2, u2)"
      by (cases "trigger_walk cb t d xs u")
    from False w Cons.prems have "(n, r) \<in> set log2" by simp
    from Cons.IH [OF w this] show ?thesis by simp
  next
    case True
    obtain r1 u1 where cb: "cb (fn a) (ctx a) d u = (r1, u1)" by (cases "cb (fn a) (ctx a) d u")
    obtain xs2 k2 log2 u2 where w: "trigger_walk cb t d xs u1 = (xs2, k2, log2, u2)"
      by (cases "trigger_walk cb t d xs u1")
    from True cb w Cons.prems have "n = a \<or> (n, r) \<in> set log2" by (auto split: if_splits)
    with Cons.IH [OF w] show ?thesis by auto
  qed
qed

lemma trigger_walk_log_sorted:
  "same_trigger_sorted xs \<Longrightarrow> trigger_walk cb t d xs u = (xs', k, log, u') \<Longrightarrow>
     sorted_wrt (\<lambda>a b. priority (fst b) \<le> priority (fst a)) log"
proof (induction xs arbitrary: u xs' k log u')
  case Nil
  then show ?case by simp
next
  case (Cons a xs)
  from Cons.prems(1) have rest: "same_trigger_sorted xs"
    and before: "\<forall>x\<in>set xs. trigger a = trigger x \<longrightarrow> priority x \<le> priority a"
    by (simp_all add: same_trigger_sorted_def)
  show ?case
  proof (cases "trigger a = t")
    case False
    obtain xs2 k2 log2 u2 where w: "trigger_walk cb t d xs u = (xs2, k2, log2, u2)"
      by (cases "trigger_walk cb t d xs u")
    from False w Cons.prems(2) have "log = log2" by simp
    with Cons.IH [OF rest w] show ?thesis by simp
  next
    case True
    obtain r1 u1 where cb: "cb (fn a) (ctx a) d u = (r1, u1)" by (cases "cb (fn a) (ctx a) d u")
    obtain xs2 k2 log2 u2 where w: "trigger_walk cb t d xs u1 = (xs2, k2, log2, u2)"
      by (cases "trigger_walk cb t d xs u1")
    have "\<forall>e\<in>set log2. priority (fst e) \<le> priority a"
    proof
      fix e assume e: "e \<in> set log2"
      obtain n r where nr: "e = (n, r)" by (cases e)
      from trigger_walk_log_mem [OF w] trigger_walk_log_trigger [OF w] e nr
      have "n \<in> set xs" "trigger n = t" by auto
      with before True nr show "priority (fst e) \<le> priority a" by simp
    qed
    moreover from True cb w Cons.prems(2) have "log = [(a, r1)] \<or> log = (a, r1) # log2"
      by (auto split: if_splits)
    ultimately show ?thesis using Cons.IH [OF rest w] by auto
  qed
qed

text \<open>
  Priority order where the table does not grow. A register call that does not grow the
  table (static mode, an uninitialized registry, or a load below three quarters), an
  unregister call and a trigger call keep every chain in priority order, and a trigger
  call invokes the callbacks in non-increasing priority. The new node goes behind every
  node of its trigger with the same or a higher priority and before those with a lower
  one. Together with C1: growth is the only operation that breaks the order.
\<close>

theorem order_kept_without_growth:
  fixes t :: string and p :: "8 word" and f c :: ptr and oflag :: bool
  defines "node \<equiv> \<lparr>trigger = t, priority = p, once = oflag, fn = f, ctx = c\<rparr>"
  assumes "registry_ok s" and "table_sorted s"
  shows "(EZCB_NO_MALLOC cfg \<or> ezcb_table s = None \<or> ezcb_count s * 4 < ezcb_buckets s * 3 \<longrightarrow>
            (\<forall>rc s'. ezcb_register_internal cfg h t p f c oflag s = Inr (rc, s') \<longrightarrow> table_sorted s'))
       \<and> (\<forall>rc s'. ezcb_unregister cfg topt uf uc s = Inr (rc, s') \<longrightarrow> table_sorted s')
       \<and> (\<forall>s' log u'. ezcb_trigger cfg cb tn d s u = Inr (s', log, u') \<longrightarrow>
             table_sorted s' \<and> sorted_wrt (\<lambda>a b. priority (fst b) \<le> priority (fst a)) log)
       \<and> (\<forall>chain. \<exists>pre post.
             chain = pre @ post \<and> chain_insert t p node chain = pre @ node # post
             \<and> (\<forall>n\<in>set pre. trigger n = t \<longrightarrow> p \<le> priority n)
             \<and> (same_trigger_sorted chain \<longrightarrow> (\<forall>n\<in>set post. trigger n = t \<longrightarrow> priority n < p)))"
proof -
  have a: "\<forall>rc s'. ezcb_register_internal cfg h t p f c oflag s = Inr (rc, s') \<longrightarrow> table_sorted s'"
    if "EZCB_NO_MALLOC cfg \<or> ezcb_table s = None \<or> ezcb_count s * 4 < ezcb_buckets s * 3"
    using register_sorted [OF assms(3) that] by blast
  have b: "\<forall>rc s'. ezcb_unregister cfg topt uf uc s = Inr (rc, s') \<longrightarrow> table_sorted s'"
    using unregister_sorted [OF assms(3,2)] by blast
  have c: "table_sorted s' \<and> sorted_wrt (\<lambda>a b. priority (fst b) \<le> priority (fst a)) log"
    if tr: "ezcb_trigger cfg cb tn d s u = Inr (s', log, u')" for s' log u'
  proof (cases "ezcb_table s")
    case None
    with tr assms(3) show ?thesis by (simp add: ezcb_trigger_def)
  next
    case (Some tbl)
    let ?idx = "unat (ezcb_hash tn) mod ezcb_buckets s"
    from tr Some have pos: "0 < ezcb_buckets s" and idx: "?idx < length tbl"
      by (auto simp: ezcb_trigger_def Let_def split: if_splits)
    obtain ch k lg v where w: "trigger_walk cb tn d (tbl ! ?idx) u = (ch, k, lg, v)"
      by (cases "trigger_walk cb tn d (tbl ! ?idx) u")
    from ezcb_trigger_active [OF Some pos refl idx, of cfg cb d u] w tr have "log = lg" by simp
    with trigger_walk_log_sorted [OF table_sorted_nth [OF assms(3) Some idx] w]
      trigger_sorted [OF assms(3) tr]
    show ?thesis by simp
  qed
  from a b c chain_insert_position [of _ t p node] show ?thesis by blast
qed

theorem order_kept_without_growth_witness:
  "table_sorted (collide [node_a, node_a1, node_b, node_a2])
   \<and> ezcb_register_internal one_bucket heap_ok ''a'' 3 9 0 False (collide [node_a, node_a1, node_b])
       = Inr (0, collide [node_a, node_a1, node_b, \<lparr>trigger = ''a'', priority = 3, once = False, fn = 9, ctx = 0\<rparr>])
   \<and> table_sorted (collide [node_a, node_a1, node_b, \<lparr>trigger = ''a'', priority = 3, once = False, fn = 9, ctx = 0\<rparr>])
   \<and> ezcb_register_internal one_bucket heap_ok ''a'' 4 9 0 False (collide [node_a, node_a1, node_b])
       = Inr (0, collide [node_a, \<lparr>trigger = ''a'', priority = 4, once = False, fn = 9, ctx = 0\<rparr>, node_a1, node_b])"
proof -
  have ok: "registry_ok (collide [node_a, node_a1, node_b])"
    by (simp add: registry_ok_def bucket_of_def demo_defs)
  have so: "table_sorted (collide [node_a, node_a1, node_b])"
    by (simp add: table_sorted_def same_trigger_sorted_def demo_defs)
  have so2: "table_sorted (collide [node_a, node_a1, node_b, node_a2])"
    by (simp add: table_sorted_def same_trigger_sorted_def demo_defs)
  have r: "ezcb_register_internal one_bucket heap_ok ''a'' 3 9 0 False (collide [node_a, node_a1, node_b])
       = Inr (0, collide [node_a, node_a1, node_b, \<lparr>trigger = ''a'', priority = 3, once = False, fn = 9, ctx = 0\<rparr>])"
    by (simp add: ezcb_register_internal_def register_precheck_def ezcb_node_alloc_def
        register_link_def demo_defs)
  have r4: "ezcb_register_internal one_bucket heap_ok ''a'' 4 9 0 False (collide [node_a, node_a1, node_b])
       = Inr (0, collide [node_a, \<lparr>trigger = ''a'', priority = 4, once = False, fn = 9, ctx = 0\<rparr>, node_a1, node_b])"
    by (simp add: ezcb_register_internal_def register_precheck_def ezcb_node_alloc_def
        register_link_def demo_defs)
  from order_kept_without_growth [OF ok so, where cfg = one_bucket and h = heap_ok and t = "''a''"
      and p = 3 and f = 9 and c = 0 and oflag = False and topt = None and uf = 0 and uc = 0
      and cb = stop_at_1 and tn = "''a''" and d = 0 and u = 0] r
  have "table_sorted (collide [node_a, node_a1, node_b, \<lparr>trigger = ''a'', priority = 3, once = False, fn = 9, ctx = 0\<rparr>])"
    by (simp add: one_bucket_def)
  with so2 r r4 show ?thesis by simp
qed

subsection \<open>Teardown and exhausted resources\<close>

text \<open>
  Teardown. \<open>ezcb_deinit\<close> releases every registration without running a callback and
  leaves the NULL table; in the static mode the nodes are back on the free list. A second
  deinit and a trigger call then change nothing, and an init from there gives the empty
  registry.
\<close>

theorem teardown_returns_to_uninitialized:
  assumes "registry_ok s"
  shows "\<exists>s1. ezcb_deinit cfg s = Inr s1 \<and> ezcb_table s1 = None \<and> all_nodes s1 = []
           \<and> (ezcb_table s \<noteq> None \<longrightarrow> ezcb_count s1 = 0 \<and> ezcb_buckets s1 = 0)
           \<and> (EZCB_NO_MALLOC cfg \<longrightarrow> ezcb_free_list s1 = ezcb_free_list s + length (all_nodes s))
           \<and> ezcb_deinit cfg s1 = Inr s1
           \<and> ezcb_trigger cfg cb t d s1 u = Inr (s1, [], u)
           \<and> (EZCB_NO_MALLOC cfg \<or> calloc_ok h \<longrightarrow>
                all_nodes (ezcb_init cfg h s1) = []
                \<and> ezcb_count (ezcb_init cfg h s1) = 0
                \<and> (EZCB_NO_MALLOC cfg \<longrightarrow> ezcb_free_list (ezcb_init cfg h s1) = EZCB_MAX_NODES cfg))"
proof (cases "ezcb_table s")
  case None
  then show ?thesis
    by (auto simp: ezcb_deinit_def ezcb_trigger_def all_nodes_def ezcb_init_def)
next
  case (Some tbl)
  with assms have len: "length tbl = ezcb_buckets s" by (simp add: registry_ok_def)
  with Some show ?thesis
    by (auto simp: ezcb_deinit_def ezcb_trigger_def all_nodes_def ezcb_init_def)
qed

theorem teardown_returns_to_uninitialized_witness:
  "ezcb_deinit one_bucket (queued [node_a, node_b] [evt_c, evt_blank, evt_a, evt_b] 1 2)
     = Inr ((ezcb_startup one_bucket)\<lparr>ezcb_free_list := 4, ezcb_evt_queue := [evt_c, evt_blank, evt_a, evt_b]\<rparr>)
   \<and> ezcb_deinit one_bucket ((ezcb_startup one_bucket)\<lparr>ezcb_free_list := 4, ezcb_evt_queue := [evt_c, evt_blank, evt_a, evt_b]\<rparr>)
     = Inr ((ezcb_startup one_bucket)\<lparr>ezcb_free_list := 4, ezcb_evt_queue := [evt_c, evt_blank, evt_a, evt_b]\<rparr>)"
proof -
  have ok: "registry_ok (queued [node_a, node_b] [evt_c, evt_blank, evt_a, evt_b] 1 2)"
    by (simp add: registry_ok_def bucket_of_def queued_def demo_defs)
  have e: "ezcb_deinit one_bucket (queued [node_a, node_b] [evt_c, evt_blank, evt_a, evt_b] 1 2)
     = Inr ((ezcb_startup one_bucket)\<lparr>ezcb_free_list := 4, ezcb_evt_queue := [evt_c, evt_blank, evt_a, evt_b]\<rparr>)"
    by (simp add: ezcb_deinit_def queued_def demo_defs)
  from teardown_returns_to_uninitialized [OF ok, of one_bucket stop_at_1 "''a''" 0 0 heap_ok] e
  show ?thesis by auto
qed

text \<open>
  Register without resources, on an initialized registry: with an empty free list in the
  static mode, and with a failing \<^verbatim>\<open>malloc\<close> in the malloc mode below the load factor, the call
  returns -1 and leaves the state as it is.
\<close>

theorem register_without_resources:
  fixes t :: string and p :: "8 word" and f c :: ptr and oflag :: bool
  assumes "ezcb_table s \<noteq> None"
  shows "(EZCB_NO_MALLOC cfg \<and> ezcb_free_list s = 0 \<longrightarrow>
            ezcb_register_internal cfg h t p f c oflag s = Inr (- 1, s))
       \<and> (\<not> EZCB_NO_MALLOC cfg \<and> \<not> malloc_ok h \<and> ezcb_count s * 4 < ezcb_buckets s * 3 \<longrightarrow>
            ezcb_register_internal cfg h t p f c oflag s = Inr (- 1, s))"
  using assms
  by (auto simp: ezcb_register_internal_def register_precheck_def ezcb_node_alloc_def)

theorem register_without_resources_witness:
  "ezcb_register_internal one_bucket heap_ok ''c'' 1 3 0 True (collide [node_a, node_b, node_a, node_b])
     = Inr (- 1, collide [node_a, node_b, node_a, node_b])
   \<and> ezcb_free_list (collide [node_a, node_b, node_a, node_b]) = 0"
proof -
  have "ezcb_table (collide [node_a, node_b, node_a, node_b]) \<noteq> None" by (simp add: collide_def)
  from register_without_resources [OF this, where cfg = one_bucket and h = heap_ok and t = "''c''"
      and p = 1 and f = 3 and c = 0 and oflag = True]
  show ?thesis by (simp add: collide_def one_bucket_def ezcb_startup_def)
qed

end
